theory Spec2Isabelle
  imports Main "HOL-Library.Multiset"
begin

section \<open>JavaScript values\<close>

text \<open>
  The scan route works on loosely typed data: a raw violation is whatever the scanner
  returned. Values are modelled as a JSON-like datatype. An object is an association list
  of own properties; reading a property that is not there gives \<open>undefined\<close>. Numbers are
  modelled by the integers: every number the route computes is an integer far below
  \<open>2^53\<close>, and a fraction or \<open>NaN\<close> in scanner data is not represented. Strings are
  byte lists.
\<close>

datatype jsval =
    JUndefined
  | JNull
  | JBool bool
  | JNum int
  | JStr string
  | JArr "jsval list"
  | JObj "(string \<times> jsval) list"

text \<open>The exceptions the route can meet: a \<open>TypeError\<close> raised by the language, and a
  failure raised by one of the external collaborators (scanner, AI service).\<close>

datatype error = TypeError | CollaboratorError string

text \<open>\<open>Boolean(v)\<close>: the values that \<open>||\<close>, \<open>&&\<close> and \<open>?:\<close> treat as true.\<close>

fun truthy :: "jsval \<Rightarrow> bool" where
  "truthy JUndefined = False"
| "truthy JNull = False"
| "truthy (JBool b) = b"
| "truthy (JNum n) = (n \<noteq> 0)"
| "truthy (JStr s) = (s \<noteq> [])"
| "truthy (JArr _) = True"
| "truthy (JObj _) = True"

text \<open>\<open>a || b\<close> on values (the operands are free of effects wherever it is used).\<close>

definition js_or :: "jsval \<Rightarrow> jsval \<Rightarrow> jsval" where
  "js_or a b = (if truthy a then a else b)"

text \<open>\<open>v.k\<close>: a \<open>TypeError\<close> on \<open>null\<close> and \<open>undefined\<close>, the own property of an object,
  \<open>undefined\<close> on every other value (none of the keys the route reads is a built-in
  property of a string, number, boolean or array).\<close>

fun get_prop :: "jsval \<Rightarrow> string \<Rightarrow> error + jsval" where
  "get_prop JUndefined k = Inl TypeError"
| "get_prop JNull k = Inl TypeError"
| "get_prop (JObj kvs) k = Inr (case map_of kvs k of None \<Rightarrow> JUndefined | Some v \<Rightarrow> v)"
| "get_prop v k = Inr JUndefined"

text \<open>The values on which a property read raises.\<close>

fun nullish :: "jsval \<Rightarrow> bool" where
  "nullish JUndefined = True"
| "nullish JNull = True"
| "nullish v = False"

text \<open>The value of \<open>v.k\<close> for a \<open>v\<close> that is not nullish.\<close>

definition own_prop :: "jsval \<Rightarrow> string \<Rightarrow> jsval" where
  "own_prop v k = (case get_prop v k of Inr x \<Rightarrow> x | Inl e \<Rightarrow> JUndefined)"

text \<open>Sequencing of computations that may raise.\<close>

definition bind_result :: "error + 'a \<Rightarrow> ('a \<Rightarrow> error + 'b) \<Rightarrow> error + 'b" where
  "bind_result m f = (case m of Inl e \<Rightarrow> Inl e | Inr x \<Rightarrow> f x)"

text \<open>\<open>xs.map(f)\<close> where the callback may raise: the first exception aborts the map.\<close>

fun map_result :: "('a \<Rightarrow> error + 'b) \<Rightarrow> 'a list \<Rightarrow> error + 'b list" where
  "map_result f [] = Inr []"
| "map_result f (x # xs) =
     (case f x of
        Inl e \<Rightarrow> Inl e
      | Inr y \<Rightarrow> (case map_result f xs of Inl e \<Rightarrow> Inl e | Inr ys \<Rightarrow> Inr (y # ys)))"

text \<open>\<open>xs.filter(p)\<close> where the callback may raise.\<close>

fun filter_result :: "('a \<Rightarrow> error + bool) \<Rightarrow> 'a list \<Rightarrow> error + 'a list" where
  "filter_result p [] = Inr []"
| "filter_result p (x # xs) =
     (case p x of
        Inl e \<Rightarrow> Inl e
      | Inr keep \<Rightarrow>
          (case filter_result p xs of
             Inl e \<Rightarrow> Inl e
           | Inr ys \<Rightarrow> Inr (if keep then x # ys else ys)))"

subsection \<open>Strings\<close>

definition digit_char :: "nat \<Rightarrow> char" where
  "digit_char d = ''0123456789'' ! d"

text \<open>The decimal numeral of an array index or a length, as a template literal prints it.\<close>

fun to_decimal :: "nat \<Rightarrow> string" where
  "to_decimal n =
     (if n < 10 then [digit_char n] else to_decimal (n div 10) @ [digit_char (n mod 10)])"

declare to_decimal.simps [simp del]

definition int_to_string :: "int \<Rightarrow> string" where
  "int_to_string i = (if i < 0 then CHR ''-'' # to_decimal (nat (- i)) else to_decimal (nat i))"

text \<open>\<open>String.prototype.toLowerCase\<close> on the ASCII letters. A character outside ASCII is
  left as it is: no such character lowers to an ASCII letter that occurs in a key the
  route looks up, so lookups agree with the engine's.\<close>

definition lower_char :: "char \<Rightarrow> char" where
  "lower_char c =
     (case map_of (zip ''ABCDEFGHIJKLMNOPQRSTUVWXYZ'' ''abcdefghijklmnopqrstuvwxyz'') c of
        Some l \<Rightarrow> l
      | None \<Rightarrow> c)"

definition toLowerCase :: "string \<Rightarrow> string" where
  "toLowerCase s = map lower_char s"

fun join_with :: "string \<Rightarrow> string list \<Rightarrow> string" where
  "join_with sep [] = []"
| "join_with sep [s] = s"
| "join_with sep (s # t # ss) = s @ sep @ join_with sep (t # ss)"

text \<open>
  \<open>String(v)\<close>, the conversion a regular expression applies to its argument. An object is
  converted through its \<open>toString\<close> property: the inherited one gives
  \<open>[object Object]\<close>, while an own property of that name holds a value that cannot be
  called, and the conversion raises a \<open>TypeError\<close> (the inherited \<open>valueOf\<close> returns
  the object itself and does not help). An array joins the texts of its elements, with
  \<open>null\<close> and \<open>undefined\<close> as empty texts, so the exception also comes from an
  object inside an array.
\<close>

fun stringifiable :: "jsval \<Rightarrow> bool" where
  "stringifiable (JArr vs) = list_all stringifiable vs"
| "stringifiable (JObj kvs) = (''toString'' \<notin> fst ` set kvs)"
| "stringifiable v = True"

fun string_of :: "jsval \<Rightarrow> string" where
  "string_of JUndefined = ''undefined''"
| "string_of JNull = ''null''"
| "string_of (JBool b) = (if b then ''true'' else ''false'')"
| "string_of (JNum n) = int_to_string n"
| "string_of (JStr s) = s"
| "string_of (JArr vs) =
     join_with '',''
       (map (\<lambda>v. if v = JUndefined \<or> v = JNull then [] else string_of v) vs)"
| "string_of (JObj kvs) = ''[object Object]''"

definition js_to_string :: "jsval \<Rightarrow> error + string" where
  "js_to_string v = (if stringifiable v then Inr (string_of v) else Inl TypeError)"

text \<open>\<open>s.startsWith(p)\<close> and \<open>s.includes(p)\<close>.\<close>

definition startsWith :: "string \<Rightarrow> string \<Rightarrow> bool" where
  "startsWith s p = (take (length p) s = p)"

fun includes_str :: "string \<Rightarrow> string \<Rightarrow> bool" where
  "includes_str [] p = (p = [])"
| "includes_str (c # s) p = (startsWith (c # s) p \<or> includes_str s p)"

section \<open>Violation Enricher\<close>

text \<open>
  An enriched violation is the object literal that \<open>enrichViolations\<close> builds. Each field
  holds a JavaScript value; a field the literal does not set (the minimal record of the
  \<open>catch\<close> branch sets only \<open>id\<close> and \<open>raw\<close>) reads as \<open>undefined\<close>. The field
  \<open>aiExplanation\<close> is the one the annotation stage may add later.
\<close>

record enriched =
  ev_id :: jsval
  ev_description :: jsval
  ev_impact :: jsval
  ev_nodes :: jsval
  ev_wcag :: jsval
  ev_raw :: jsval
  ev_aiExplanation :: jsval

text \<open>\<open>/^wcag|^WCAG/i.test(t) || /^wcag/.test(t)\<close>: \<open>test\<close> converts \<open>t\<close> to a string,
  which may raise, and the text has to start with \<open>wcag\<close> in any letter case.\<close>

definition wcag_test :: "jsval \<Rightarrow> error + bool" where
  "wcag_test t =
     bind_result (js_to_string t) (\<lambda>s.
       Inr (startsWith (toLowerCase s) ''wcag'' \<or> startsWith s ''wcag''))"

text \<open>\<open>(v.tags || []).filter(...)\<close>: calling \<open>filter\<close> on a truthy value that is not an
  array is a \<open>TypeError\<close>, and an exception of the callback leaves the filter.\<close>

definition wcag_tags :: "jsval \<Rightarrow> error + jsval" where
  "wcag_tags tags =
     (case js_or tags (JArr []) of
        JArr ts \<Rightarrow> bind_result (filter_result wcag_test ts) (\<lambda>kept. Inr (JArr kept))
      | _ \<Rightarrow> Inl TypeError)"

text \<open>The callback of the \<open>map\<close> in the \<open>try\<close> block.\<close>

definition enrich_item :: "nat \<times> jsval \<Rightarrow> error + enriched" where
  "enrich_item p =
     (case p of (idx, v) \<Rightarrow>
        bind_result (get_prop v ''id'') (\<lambda>vid.
        bind_result (get_prop v ''ruleId'') (\<lambda>ruleId.
        bind_result (get_prop v ''description'') (\<lambda>description.
        bind_result (get_prop v ''help'') (\<lambda>help.
        bind_result (get_prop v ''message'') (\<lambda>message.
        bind_result (get_prop v ''impact'') (\<lambda>impact.
        bind_result (get_prop v ''severity'') (\<lambda>severity.
        bind_result (get_prop v ''nodes'') (\<lambda>nodes.
        bind_result (get_prop v ''targets'') (\<lambda>targets.
        bind_result (get_prop v ''tags'') (\<lambda>tags.
        bind_result (wcag_tags tags) (\<lambda>wcag.
          Inr \<lparr> ev_id = js_or vid (js_or ruleId (JStr (''violation-'' @ to_decimal idx))),
                ev_description = js_or description (js_or help (js_or message (JStr []))),
                ev_impact = js_or impact (js_or severity (JStr ''moderate'')),
                ev_nodes = js_or nodes (js_or targets (JArr [])),
                ev_wcag = wcag,
                ev_raw = v,
                ev_aiExplanation = JUndefined \<rparr>))))))))))))"

text \<open>The callback of the \<open>map\<close> in the \<open>catch\<close> block: the minimal record.\<close>

definition minimal_item :: "nat \<times> jsval \<Rightarrow> error + enriched" where
  "minimal_item p =
     (case p of (idx, v) \<Rightarrow>
        bind_result (get_prop v ''id'') (\<lambda>vid.
          Inr \<lparr> ev_id = js_or vid (JStr (''violation-'' @ to_decimal idx)),
                ev_description = JUndefined,
                ev_impact = JUndefined,
                ev_nodes = JUndefined,
                ev_wcag = JUndefined,
                ev_raw = v,
                ev_aiExplanation = JUndefined \<rparr>))"

text \<open>\<open>enrichViolations\<close>: the \<open>try\<close> block maps \<open>enrich_item\<close> over the array with its
  indices; any exception sends the whole batch to the \<open>catch\<close> block, which maps
  \<open>minimal_item\<close> and is not guarded itself. (The debug log line is not modelled.)\<close>

definition enrichViolations :: "jsval list \<Rightarrow> error + enriched list" where
  "enrichViolations violations =
     (case map_result enrich_item (enumerate 0 violations) of
        Inr es \<Rightarrow> Inr es
      | Inl e \<Rightarrow> map_result minimal_item (enumerate 0 violations))"

section \<open>Remediation Prioritizer\<close>

text \<open>The object literal \<open>weight\<close> of \<open>prioritizeRemediations\<close>: its own properties.\<close>

definition weight :: "(string \<times> int) list" where
  "weight = [(''critical'', 5), (''serious'', 4), (''high'', 4),
             (''moderate'', 3), (''low'', 2), (''minor'', 1)]"

text \<open>An object literal inherits from \<open>Object.prototype\<close>, so \<open>weight[k]\<close> also finds
  the properties below: each is a function or an object, hence truthy, and turns into
  \<open>NaN\<close> under arithmetic.\<close>

definition object_prototype_keys :: "string list" where
  "object_prototype_keys =
     [''constructor'', ''__proto__'', ''hasOwnProperty'', ''isPrototypeOf'',
      ''propertyIsEnumerable'', ''toLocaleString'', ''toString'', ''valueOf'',
      ''__defineGetter__'', ''__defineSetter__'', ''__lookupGetter__'',
      ''__lookupSetter__'']"

text \<open>A number as arithmetic sees it: an integer, or \<open>NaN\<close>.\<close>

datatype jsnum = Fin int | NaN

text \<open>\<open>weight[(a.impact || "").toLowerCase()] || 2\<close>, read as a number. Calling
  \<open>toLowerCase\<close> on a truthy value that is not a string is a \<open>TypeError\<close>.\<close>

definition weight_of :: "enriched \<Rightarrow> error + jsnum" where
  "weight_of a =
     (case js_or (ev_impact a) (JStr []) of
        JStr s \<Rightarrow>
          (let k = toLowerCase s
           in case map_of weight k of
                Some n \<Rightarrow> Inr (if n \<noteq> 0 then Fin n else Fin 2)
              | None \<Rightarrow> Inr (if k \<in> set object_prototype_keys then NaN else Fin 2))
      | _ \<Rightarrow> Inl TypeError)"

definition js_sub :: "jsnum \<Rightarrow> jsnum \<Rightarrow> jsnum" where
  "js_sub x y = (case (x, y) of (Fin a, Fin b) \<Rightarrow> Fin (a - b) | _ \<Rightarrow> NaN)"

text \<open>The comparator \<open>(a, b) => wb - wa\<close>; \<open>wa\<close> is computed first.\<close>

definition compare_weight :: "enriched \<Rightarrow> enriched \<Rightarrow> error + jsnum" where
  "compare_weight a b =
     bind_result (weight_of a) (\<lambda>wa. bind_result (weight_of b) (\<lambda>wb. Inr (js_sub wb wa)))"

text \<open>
  \<open>Array.prototype.sort\<close> with a comparator, as the engine of the route (V8, under
  Node) runs it. The result of the comparator is read as a number, with \<open>NaN\<close> taken as
  \<open>0\<close>; an exception of the comparator leaves the sort. An array of fewer than two
  elements is returned without a call of the comparator. Otherwise the engine takes the
  longest run at the start of the array that is already in order (a strictly descending
  run is reversed) and puts each further element into place by binary insertion, after
  the elements it is not smaller than. For an array of fewer than 64 elements this is
  the engine's algorithm step by step. A longer array is cut into such runs which the
  engine then merges; the model sorts it by the same insertion, which gives the same
  array whenever the comparator is consistent, the merge being stable as well.
\<close>

definition sort_compare :: "jsnum \<Rightarrow> int" where
  "sort_compare v = (case v of NaN \<Rightarrow> 0 | Fin n \<Rightarrow> n)"

definition compare_order :: "('a \<Rightarrow> 'a \<Rightarrow> error + jsnum) \<Rightarrow> 'a \<Rightarrow> 'a \<Rightarrow> error + int" where
  "compare_order cmp x y = (case cmp x y of Inl e \<Rightarrow> Inl e | Inr v \<Rightarrow> Inr (sort_compare v))"

text \<open>The loop of \<open>CountAndMakeRun\<close>: the elements that continue the run after
  \<open>previous\<close>, and the rest of the array.\<close>

fun extend_run ::
  "('a \<Rightarrow> 'a \<Rightarrow> error + jsnum) \<Rightarrow> bool \<Rightarrow> 'a \<Rightarrow> 'a list \<Rightarrow> error + 'a list \<times> 'a list" where
  "extend_run cmp descending previous [] = Inr ([], [])"
| "extend_run cmp descending previous (current # rest) =
     (case compare_order cmp current previous of
        Inl e \<Rightarrow> Inl e
      | Inr order \<Rightarrow>
          if (if descending then order \<ge> 0 else order < 0) then Inr ([], current # rest)
          else (case extend_run cmp descending current rest of
                  Inl e \<Rightarrow> Inl e
                | Inr (run, rest') \<Rightarrow> Inr (current # run, rest')))"

text \<open>\<open>CountAndMakeRun\<close> on an array of two or more elements: the run, in ascending
  order, and the rest.\<close>

fun count_and_make_run ::
  "('a \<Rightarrow> 'a \<Rightarrow> error + jsnum) \<Rightarrow> 'a list \<Rightarrow> error + 'a list \<times> 'a list" where
  "count_and_make_run cmp (low # high # rest) =
     (case compare_order cmp high low of
        Inl e \<Rightarrow> Inl e
      | Inr order \<Rightarrow>
          (case extend_run cmp (order < 0) high rest of
             Inl e \<Rightarrow> Inl e
           | Inr (run, rest') \<Rightarrow>
               Inr (if order < 0 then rev (low # high # run) else low # high # run, rest')))"
| "count_and_make_run cmp xs = Inr (xs, [])"

text \<open>The binary search of \<open>BinaryInsertionSort\<close> for the place of \<open>pivot\<close> between
  \<open>left\<close> and \<open>right\<close>.\<close>

function binary_search ::
  "('a \<Rightarrow> 'a \<Rightarrow> error + jsnum) \<Rightarrow> 'a \<Rightarrow> 'a list \<Rightarrow> nat \<Rightarrow> nat \<Rightarrow> error + nat" where
  "binary_search cmp pivot placed left right =
     (if left < right
      then (case compare_order cmp pivot (placed ! (left + (right - left) div 2)) of
              Inl e \<Rightarrow> Inl e
            | Inr order \<Rightarrow>
                if order < 0
                then binary_search cmp pivot placed left (left + (right - left) div 2)
                else binary_search cmp pivot placed (left + (right - left) div 2 + 1) right)
      else Inr left)"
  by pat_completeness auto
termination
  by (relation "measure (\<lambda>(cmp, pivot, placed, left, right). right - left)") auto

declare binary_search.simps [simp del]

text \<open>\<open>BinaryInsertionSort\<close>: each element after the run is inserted into the sorted
  part before it.\<close>

fun binary_insertion ::
  "('a \<Rightarrow> 'a \<Rightarrow> error + jsnum) \<Rightarrow> 'a list \<Rightarrow> 'a list \<Rightarrow> error + 'a list" where
  "binary_insertion cmp placed [] = Inr placed"
| "binary_insertion cmp placed (pivot # rest) =
     (case binary_search cmp pivot placed 0 (length placed) of
        Inl e \<Rightarrow> Inl e
      | Inr left \<Rightarrow>
          binary_insertion cmp (take left placed @ pivot # drop left placed) rest)"

definition array_sort :: "('a \<Rightarrow> 'a \<Rightarrow> error + jsnum) \<Rightarrow> 'a list \<Rightarrow> error + 'a list" where
  "array_sort cmp xs =
     (if length xs < 2 then Inr xs
      else (case count_and_make_run cmp xs of
              Inl e \<Rightarrow> Inl e
            | Inr (run, rest) \<Rightarrow> binary_insertion cmp run rest))"

text \<open>\<open>prioritizeRemediations\<close> on the contents of the array: the sorted copy.\<close>

definition prioritizeRemediations :: "enriched list \<Rightarrow> error + enriched list" where
  "prioritizeRemediations enriched = array_sort compare_weight enriched"

text \<open>The severity weight as the specification words it: the table, looked up on the
  lower-cased impact, and 2 for an impact that is unknown or missing.\<close>

definition spec_weight :: "enriched \<Rightarrow> int" where
  "spec_weight a =
     (case ev_impact a of
        JStr s \<Rightarrow> (case map_of weight (toLowerCase s) of Some n \<Rightarrow> n | None \<Rightarrow> 2)
      | _ \<Rightarrow> 2)"

subsection \<open>Arrays in a store\<close>

text \<open>
  Arrays are mutable and passed by reference. To speak about what the prioritizer does to
  its argument, arrays live in a store: an address is an index into the list of allocated
  arrays. \<open>slice()\<close> allocates a copy, \<open>sort\<close> overwrites the array it is called on and
  returns its address. When the comparator raises, the model leaves the array being
  sorted as it was, as does the engine, which sorts in a work array and writes the result
  back at the end.
\<close>

type_synonym addr = nat
type_synonym store = "enriched list list"

definition slice :: "store \<Rightarrow> addr \<Rightarrow> addr \<times> store" where
  "slice h a = (length h, h @ [h ! a])"

definition sort_in_place ::
  "(enriched \<Rightarrow> enriched \<Rightarrow> error + jsnum) \<Rightarrow> store \<Rightarrow> addr \<Rightarrow> (error + addr) \<times> store" where
  "sort_in_place cmp h a =
     (case array_sort cmp (h ! a) of
        Inl e \<Rightarrow> (Inl e, h)
      | Inr ys \<Rightarrow> (Inr a, h[a := ys]))"

text \<open>\<open>enriched.slice().sort(...)\<close> on an array that is allocated at \<open>a\<close>.\<close>

definition prioritizeRemediations_store :: "store \<Rightarrow> addr \<Rightarrow> (error + addr) \<times> store" where
  "prioritizeRemediations_store h a =
     (case slice h a of (c, h1) \<Rightarrow> sort_in_place compare_weight h1 c)"

section \<open>Audit Report Builder\<close>

record detailed_issue =
  di_id :: jsval
  di_description :: jsval
  di_impact :: jsval
  di_wcag :: jsval
  di_nodes :: jsval
  di_remediation :: jsval
  di_raw :: jsval
  di_aiExplanation :: jsval

record report_meta =
  scannedAt :: string
  requestId :: string

record audit_report =
  ar_url :: string
  accessibilityScore :: int
  detailedIssues :: "detailed_issue list"
  summary :: jsval
  meta :: report_meta

record scan_results =
  fs_url :: string
  fs_violations :: "enriched list"
  fs_timestamp :: string
  fs_requestId :: string

text \<open>An enriched violation as a value (used where the builder stores the violation
  itself); a property holding \<open>undefined\<close> is the same as none in every read and in the
  JSON sent.\<close>

definition enriched_value :: "enriched \<Rightarrow> jsval" where
  "enriched_value v =
     JObj (filter (\<lambda>kv. snd kv \<noteq> JUndefined)
       [(''id'', ev_id v), (''description'', ev_description v), (''impact'', ev_impact v),
        (''nodes'', ev_nodes v), (''wcag'', ev_wcag v), (''raw'', ev_raw v),
        (''aiExplanation'', ev_aiExplanation v)])"

text \<open>The two collaborators imported from the AI module are parameters: \<open>None\<close> stands
  for a binding that is not a function, \<open>Some f\<close> for a function that may raise.\<close>

type_synonym improvement_plan = "(enriched \<Rightarrow> error + jsval) option"
type_synonym summarizer = "(string \<times> detailed_issue list \<Rightarrow> error + jsval) option"

text \<open>The callback that builds one detailed issue. An enriched violation has no \<open>help\<close>
  property, so \<open>v.help\<close> is \<open>undefined\<close>; \<open>v.raw && v.raw.description\<close> reads the
  description only of a truthy \<open>raw\<close> and is \<open>raw\<close> itself otherwise. The remediation
  call is the only step that can raise.\<close>

definition build_issue :: "improvement_plan \<Rightarrow> nat \<times> enriched \<Rightarrow> error + detailed_issue" where
  "build_issue generateImprovementPlan p =
     (case p of (idx, v) \<Rightarrow>
        bind_result (if truthy (ev_raw v) then get_prop (ev_raw v) ''description''
                     else Inr (ev_raw v)) (\<lambda>raw_description.
        bind_result (case generateImprovementPlan of
                       Some f \<Rightarrow> f v
                     | None \<Rightarrow> Inr JNull) (\<lambda>remediation.
          Inr \<lparr> di_id = js_or (ev_id v) (JStr (''issue-'' @ to_decimal idx)),
                di_description =
                  js_or (ev_description v) (js_or JUndefined (js_or raw_description (JStr []))),
                di_impact = js_or (ev_impact v) (JStr ''moderate''),
                di_wcag = js_or (ev_wcag v) (JArr []),
                di_nodes = js_or (ev_nodes v) (JArr []),
                di_remediation = remediation,
                di_raw = js_or (ev_raw v) (enriched_value v),
                di_aiExplanation = JUndefined \<rparr>)))"

text \<open>\<open>generateAuditReport\<close>. The clock is the parameter \<open>now\<close>.\<close>

definition generateAuditReport ::
  "improvement_plan \<Rightarrow> summarizer \<Rightarrow> string \<Rightarrow> scan_results \<Rightarrow> error + audit_report" where
  "generateAuditReport generateImprovementPlan generateSummary now fullScanResults =
     (let violations = fs_violations fullScanResults;
          totalViolations = length violations;
          score = max 0 (min 100 (100 - int totalViolations * 8))
      in bind_result (map_result (build_issue generateImprovementPlan)
                        (enumerate 0 violations)) (\<lambda>issues.
         bind_result (case generateSummary of
                        Some g \<Rightarrow> g (fs_url fullScanResults, issues)
                      | None \<Rightarrow>
                          Inr (JStr (''Found '' @ to_decimal totalViolations @
                                     '' accessibility issue(s).''))) (\<lambda>summ.
           Inr \<lparr> ar_url = fs_url fullScanResults,
                 accessibilityScore = score,
                 detailedIssues = issues,
                 summary = summ,
                 meta = \<lparr> scannedAt = (if fs_timestamp fullScanResults \<noteq> []
                                         then fs_timestamp fullScanResults else now),
                          requestId = fs_requestId fullScanResults \<rparr> \<rparr>)))"

section \<open>Result Validator, Sanity Check, Comparison Advisor\<close>

record validation_result =
  overallQuality :: string
  validationScore :: int
  vr_issues :: "(jsval \<times> jsval) list"
  vr_warnings :: "string list"

text \<open>\<open>validateAuditResults\<close> on a report of the builder. The score of such a report is
  a number, so the warning for a missing score is never pushed.\<close>

definition validateAuditResults :: "audit_report \<Rightarrow> validation_result" where
  "validateAuditResults auditReport =
     (let iss = detailedIssues auditReport;
          vscore = max 0 (min 100 (accessibilityScore auditReport - int (length iss) div 2))
      in \<lparr> overallQuality =
              (if vscore \<ge> 80 then ''good'' else if vscore \<ge> 50 then ''fair'' else ''poor''),
            validationScore = vscore,
            vr_issues = map (\<lambda>i. (di_id i, di_impact i)) iss,
            vr_warnings = [] \<rparr>)"

record sanity_check =
  sc_passed :: bool
  sc_notes :: "string list"

definition performSanityCheck :: "audit_report \<Rightarrow> sanity_check" where
  "performSanityCheck auditReport =
     (let ok = (accessibilityScore auditReport \<ge> 0 \<and> accessibilityScore auditReport \<le> 100)
      in \<lparr> sc_passed = ok,
            sc_notes = (if ok then [] else [''accessibilityScore missing or out of range'']) \<rparr>)"

record industry_comparison =
  ic_url :: string
  recommendations :: "string list"
  expectedVariances :: string
  interpretationGuide :: string

definition generateIndustryComparison :: "audit_report \<Rightarrow> industry_comparison" where
  "generateIndustryComparison auditReport =
     \<lparr> ic_url = ar_url auditReport,
       recommendations = [''axe-core'', ''WAVE'', ''Lighthouse''],
       expectedVariances =
         ''Different tools may surface additional or fewer issues; use multiple tools for coverage.'',
       interpretationGuide =
         ''Higher score = better accessibility. Focus on 'critical/serious' items first.'' \<rparr>"

section \<open>Optional AI Annotator and response assembly\<close>

text \<open>
  Phase 5 of the handler. \<open>key\<close> tells whether the credential of the AI service is set;
  \<open>explainIssue\<close> is the external explanation call, which may fail for each item on its
  own. \<open>Promise.all\<close> keeps the order of its input, and each item catches its own
  failure, so the stage is a map over the first five items followed by the rest.
\<close>

definition annotate_item :: "(enriched \<Rightarrow> error + jsval) \<Rightarrow> enriched \<Rightarrow> enriched" where
  "annotate_item explainIssue violation =
     (case explainIssue violation of
        Inr explanation \<Rightarrow> violation\<lparr>ev_aiExplanation := explanation\<rparr>
      | Inl e \<Rightarrow> violation)"

definition annotate :: "bool \<Rightarrow> (enriched \<Rightarrow> error + jsval) \<Rightarrow> enriched list \<Rightarrow> enriched list" where
  "annotate key explainIssue prioritized =
     (if key \<and> length prioritized > 0
      then map (annotate_item explainIssue) (take 5 prioritized) @ drop 5 prioritized
      else prioritized)"

text \<open>\<open>enhancedWithAI[idx]?.aiExplanation || undefined\<close>.\<close>

definition explanation_at :: "enriched list \<Rightarrow> nat \<Rightarrow> jsval" where
  "explanation_at enhancedWithAI idx =
     (if idx < length enhancedWithAI
      then js_or (ev_aiExplanation (enhancedWithAI ! idx)) JUndefined
      else JUndefined)"

text \<open>The \<open>detailedIssues\<close> of the response: the issues of the report, each with the
  explanation found at its own index in \<open>enhancedWithAI\<close>.\<close>

definition merge_explanations :: "detailed_issue list \<Rightarrow> enriched list \<Rightarrow> detailed_issue list" where
  "merge_explanations issues enhancedWithAI =
     map (\<lambda>p. case p of (idx, issue) \<Rightarrow>
            issue\<lparr>di_aiExplanation := explanation_at enhancedWithAI idx\<rparr>)
         (enumerate 0 issues)"

record scan_response =
  rs_requestId :: string
  rs_auditReport :: audit_report
  rs_validation :: validation_result
  rs_sanityCheck :: sanity_check
  rs_industryComparison :: industry_comparison

record collaborators =
  api_key :: bool
  explainIssue :: "enriched \<Rightarrow> error + jsval"
  generateImprovementPlan :: improvement_plan
  generateSummary :: summarizer

text \<open>Phases 2 to 5 and the final response of \<open>POST\<close>, from the violations the scanner
  returned. An exception of any phase is the \<open>Inl\<close> that the handler's \<open>catch\<close>
  receives. (Durations, timestamps of the response and log lines are not modelled.)\<close>

definition audit_pipeline ::
  "collaborators \<Rightarrow> string \<Rightarrow> string \<Rightarrow> string \<Rightarrow> jsval list \<Rightarrow> error + scan_response" where
  "audit_pipeline env now url rid violations =
     bind_result (enrichViolations violations) (\<lambda>enrichedViolations.
     bind_result (prioritizeRemediations enrichedViolations) (\<lambda>prioritized.
     bind_result (generateAuditReport (generateImprovementPlan env) (generateSummary env) now
                    \<lparr> fs_url = url, fs_violations = enrichedViolations,
                      fs_timestamp = now, fs_requestId = rid \<rparr>) (\<lambda>auditReport.
       let validationResults = validateAuditResults auditReport;
           sanityCheck = performSanityCheck auditReport;
           industryComparison = generateIndustryComparison auditReport;
           enhancedWithAI = annotate (api_key env) (explainIssue env) prioritized
       in Inr \<lparr> rs_requestId = rid,
                 rs_auditReport = auditReport
                   \<lparr> detailedIssues :=
                       merge_explanations (detailedIssues auditReport) enhancedWithAI \<rparr>,
                 rs_validation = validationResults,
                 rs_sanityCheck = sanityCheck,
                 rs_industryComparison = industryComparison \<rparr>)))"

section \<open>Error responses\<close>

text \<open>The message of the 500 response, from \<open>error.message\<close> (\<open>None\<close> when the thrown
  value has none).\<close>

definition errorMessage :: "string option \<Rightarrow> string" where
  "errorMessage message =
     (let m = (case message of
                 None \<Rightarrow> ''Failed to complete accessibility audit''
               | Some t \<Rightarrow> if t = [] then ''Failed to complete accessibility audit'' else t)
      in if includes_str m ''timeout'' \<or> includes_str m ''timed out''
         then ''The website took too long to load. Please try a different URL or a faster website.''
         else if includes_str m ''ERR_NAME_NOT_RESOLVED'' \<or> includes_str m ''ENOTFOUND''
         then ''Could not find that website. Please check the URL and try again.''
         else if includes_str m ''ERR_CONNECTION_REFUSED''
         then ''Connection refused. The website may be down or blocked.''
         else if includes_str m ''net::ERR'' \<or> includes_str m ''ERR::''
         then ''Network error. Please check the URL and your internet connection.''
         else m)"

text \<open>The fixed messages of the known failure signatures.\<close>

definition sanitized_messages :: "string list" where
  "sanitized_messages =
     [''The website took too long to load. Please try a different URL or a faster website.'',
      ''Could not find that website. Please check the URL and try again.'',
      ''Connection refused. The website may be down or blocked.'',
      ''Network error. Please check the URL and your internet connection.'']"

section \<open>Admission Controller\<close>

text \<open>
  The route imports \<open>checkRateLimit\<close> from the rate limiter module, whose source is not
  part of the files at hand; the route only tests \<open>allowed\<close> and reports
  \<open>retryAfter\<close>. The controller below follows section 4.1 of the specification. Time is
  counted in whole seconds, and the limit and the window are parameters.
\<close>

record rate_limit_result =
  allowed :: bool
  retryAfterSeconds :: int

text \<open>Modelled from the spec: the state of the missing rate limiter, a process-wide
  mapping from a client identifier to the timestamps of its recent admitted requests,
  created lazily (a client never seen has no entry).\<close>

type_synonym rate_limit_state = "string \<Rightarrow> int list option"

definition timestamps_of :: "rate_limit_state \<Rightarrow> string \<Rightarrow> int list" where
  "timestamps_of st clientId = (case st clientId of None \<Rightarrow> [] | Some ts \<Rightarrow> ts)"

text \<open>Modelled from the spec: the oldest of the timestamps of the missing rate limiter,
  the least one.\<close>

definition oldest :: "int list \<Rightarrow> int" where
  "oldest ts = fold min (tl ts) (hd ts)"

text \<open>Modelled from the spec: \<open>checkRateLimit\<close> of the missing rate limiter module. On
  each call: purge the timestamps older than the window (a timestamp \<open>t\<close> is in the
  window at time \<open>now\<close> when \<open>now - t < window\<close>); if the remaining count is at or above
  the limit, return \<open>allowed = false\<close> with \<open>retryAfterSeconds\<close> the time until the
  oldest in-window timestamp expires; otherwise record the current timestamp and return
  \<open>allowed = true\<close>. With a limit of 0 there is no timestamp to wait for, and the answer
  is the whole window.\<close>

definition checkRateLimit ::
  "nat \<Rightarrow> int \<Rightarrow> int \<Rightarrow> string \<Rightarrow> rate_limit_state \<Rightarrow> rate_limit_result \<times> rate_limit_state" where
  "checkRateLimit limit window now clientId st =
     (let recent = filter (\<lambda>t. now - t < window) (timestamps_of st clientId)
      in if length recent \<ge> limit
         then (\<lparr> allowed = False,
                  retryAfterSeconds = (if recent = [] then window
                                       else oldest recent + window - now) \<rparr>,
               st(clientId \<mapsto> recent))
         else (\<lparr> allowed = True, retryAfterSeconds = 0 \<rparr>,
               st(clientId \<mapsto> recent @ [now])))"

text \<open>A run of requests of one client at the given times, in order: the results, and the
  state left behind.\<close>

fun requests ::
  "nat \<Rightarrow> int \<Rightarrow> string \<Rightarrow> int list \<Rightarrow> rate_limit_state \<Rightarrow> rate_limit_result list \<times> rate_limit_state" where
  "requests limit window clientId [] st = ([], st)"
| "requests limit window clientId (t # ts) st =
     (case checkRateLimit limit window t clientId st of
        (r, st') \<Rightarrow>
          (case requests limit window clientId ts st' of (rs, st'') \<Rightarrow> (r # rs, st'')))"

section \<open>Notions of the specification and sample inputs\<close>

text \<open>\<open>clamp(lo, hi, x)\<close> as the specification writes the score formulas.\<close>

definition clamp :: "int \<Rightarrow> int \<Rightarrow> int \<Rightarrow> int" where
  "clamp lo hi x = max lo (min hi x)"

text \<open>Three enriched violations with the impacts critical, minor, critical.\<close>

definition critical_minor_critical :: "enriched list" where
  "critical_minor_critical =
     map (\<lambda>p. \<lparr> ev_id = JStr (fst p), ev_description = JStr [], ev_impact = JStr (snd p),
                 ev_nodes = JArr [], ev_wcag = JArr [], ev_raw = JObj [],
                 ev_aiExplanation = JUndefined \<rparr>)
       [(''a'', ''critical''), (''b'', ''minor''), (''c'', ''critical'')]"

text \<open>An impact on which the lookup of the prioritizer is the table lookup of the
  specification: a falsy value, or a string whose lower-cased text is not the name of a
  property inherited from \<open>Object.prototype\<close>.\<close>

definition plain_impact :: "enriched \<Rightarrow> bool" where
  "plain_impact a =
     (case js_or (ev_impact a) (JStr []) of
        JStr s \<Rightarrow> toLowerCase s \<notin> set object_prototype_keys
      | _ \<Rightarrow> False)"

text \<open>Two enriched violations: the first with the impact \<open>constructor\<close>, which the
  table does not know, the second critical.\<close>

definition constructor_then_critical :: "enriched list" where
  "constructor_then_critical =
     map (\<lambda>p. \<lparr> ev_id = JStr (fst p), ev_description = JStr [], ev_impact = JStr (snd p),
                 ev_nodes = JArr [], ev_wcag = JArr [], ev_raw = JObj [],
                 ev_aiExplanation = JUndefined \<rparr>)
       [(''a'', ''constructor''), (''b'', ''critical'')]"

text \<open>A store holding one array, the three violations above, at address 0.\<close>

definition sample_store :: store where
  "sample_store = [critical_minor_critical]"

text \<open>The tags of a raw violation on which the \<open>try\<close> block of the enricher does not
  raise: a falsy value, or an array of values that convert to strings.\<close>

definition tags_ok :: "jsval \<Rightarrow> bool" where
  "tags_ok v =
     (case js_or (own_prop v ''tags'') (JArr []) of
        JArr ts \<Rightarrow> list_all stringifiable ts
      | _ \<Rightarrow> False)"

text \<open>A scan result of two violations, the minor one first, and collaborators with the
  credential set, an explanation call that names the violation it was given, and no
  remediation or summary function.\<close>

definition minor_then_critical :: "jsval list" where
  "minor_then_critical =
     [JObj [(''id'', JStr ''a''), (''impact'', JStr ''minor'')],
      JObj [(''id'', JStr ''b''), (''impact'', JStr ''critical'')]]"

definition explain_by_id :: "enriched \<Rightarrow> error + jsval" where
  "explain_by_id v = Inr (JStr (''about '' @ string_of (ev_id v)))"

definition sample_env :: collaborators where
  "sample_env = \<lparr> api_key = True, explainIssue = explain_by_id,
                  generateImprovementPlan = None, generateSummary = None \<rparr>"

text \<open>A summarizer that is a function and whose service is unavailable: every call
  fails.\<close>

definition failing_summarizer :: summarizer where
  "failing_summarizer = Some (\<lambda>request. Inl (CollaboratorError ''503 Service Unavailable''))"

section \<open>Properties\<close>

subsection \<open>Helpers: property reads, maps that may raise\<close>

lemma get_prop_own: "\<not> nullish v \<Longrightarrow> get_prop v k = Inr (own_prop v k)"
  by (cases v) (simp_all add: own_prop_def)

lemma map_result_length: "map_result f xs = Inr ys \<Longrightarrow> length ys = length xs"
  by (induction xs arbitrary: ys) (auto split: sum.splits)

lemma map_result_nth:
  "map_result f xs = Inr ys \<Longrightarrow> i < length xs \<Longrightarrow> f (xs ! i) = Inr (ys ! i)"
proof (induction xs arbitrary: ys i)
  case Nil
  then show ?case by simp
next
  case (Cons x xs)
  then show ?case by (cases i) (auto split: sum.splits)
qed

lemma map_result_total:
  "(\<And>x. x \<in> set xs \<Longrightarrow> \<exists>y. f x = Inr y) \<Longrightarrow> \<exists>ys. map_result f xs = Inr ys"
proof (induction xs)
  case Nil
  then show ?case by simp
next
  case (Cons x xs)
  then obtain y where "f x = Inr y" by auto
  moreover from Cons obtain ys where "map_result f xs = Inr ys" by auto
  ultimately show ?case by simp
qed

lemma enumerate_member: "p \<in> set (enumerate n xs) \<Longrightarrow> snd p \<in> set xs"
  by (metis in_set_enumerate_eq nth_mem add.commute less_diff_conv2)

lemma filter_result_total:
  "(\<And>x. x \<in> set xs \<Longrightarrow> \<exists>b. p x = Inr b) \<Longrightarrow> \<exists>ys. filter_result p xs = Inr ys"
proof (induction xs)
  case Nil
  then show ?case by simp
next
  case (Cons x xs)
  then obtain b where "p x = Inr b" by auto
  moreover from Cons obtain ys where "filter_result p xs = Inr ys" by auto
  ultimately show ?case by simp
qed

lemma wcag_test_stringifiable: "stringifiable t \<Longrightarrow> \<exists>b. wcag_test t = Inr b"
  by (simp add: wcag_test_def js_to_string_def bind_result_def)

subsection \<open>Violation Enricher\<close>

lemma minimal_item_id:
  "\<not> nullish v \<Longrightarrow> \<exists>e. minimal_item (i, v) = Inr e \<and>
     ev_id e = js_or (own_prop v ''id'') (JStr (''violation-'' @ to_decimal i))"
  by (simp add: minimal_item_def bind_result_def get_prop_own)

lemma enrich_item_id:
  "enrich_item (i, v) = Inr e \<Longrightarrow> \<not> nullish v \<Longrightarrow>
     ev_id e = js_or (own_prop v ''id'')
                 (js_or (own_prop v ''ruleId'') (JStr (''violation-'' @ to_decimal i)))"
  by (auto simp add: enrich_item_def bind_result_def get_prop_own split: sum.splits)

text \<open>
  C4. Enrichment is total on records: for every sequence of raw violations none of which
  is \<open>null\<close> or \<open>undefined\<close> (every object qualifies, the empty object and the empty
  sequence included), \<open>enrichViolations\<close> does not raise and returns a sequence of the
  same length, and the id of the item at each index is truthy, in particular not the
  empty string, and is the source id, the source ruleId or \<open>violation-<index>\<close>.
\<close>

theorem enrichViolations_total:
  assumes rec: "\<forall>v \<in> set violations. \<not> nullish v"
  shows "\<exists>es. enrichViolations violations = Inr es \<and> length es = length violations \<and>
          (\<forall>i < length violations.
              truthy (ev_id (es ! i)) \<and> ev_id (es ! i) \<noteq> JStr [] \<and>
              ev_id (es ! i) \<in> {own_prop (violations ! i) ''id'',
                                own_prop (violations ! i) ''ruleId'',
                                JStr (''violation-'' @ to_decimal i)})"
proof (cases "map_result enrich_item (enumerate 0 violations)")
  case (Inr es)
  then have ev: "enrichViolations violations = Inr es"
    by (simp add: enrichViolations_def)
  from Inr have len: "length es = length violations"
    by (auto dest: map_result_length)
  have "truthy (ev_id (es ! i)) \<and> ev_id (es ! i) \<noteq> JStr [] \<and>
        ev_id (es ! i) \<in> {own_prop (violations ! i) ''id'',
                          own_prop (violations ! i) ''ruleId'',
                          JStr (''violation-'' @ to_decimal i)}"
    if i: "i < length violations" for i
  proof -
    from i rec have nn: "\<not> nullish (violations ! i)" by simp
    from Inr i have "enrich_item (enumerate 0 violations ! i) = Inr (es ! i)"
      by (intro map_result_nth) simp_all
    with i have "enrich_item (i, violations ! i) = Inr (es ! i)"
      by (simp add: nth_enumerate_eq)
    from enrich_item_id [OF this nn] show ?thesis
      by (auto simp: js_or_def)
  qed
  with ev len show ?thesis by blast
next
  case (Inl err)
  have "\<exists>y. minimal_item p = Inr y" if "p \<in> set (enumerate 0 violations)" for p
  proof -
    from that rec have "\<not> nullish (snd p)" by (auto dest: enumerate_member)
    from minimal_item_id [OF this, of "fst p"] show ?thesis by auto
  qed
  then obtain es where es: "map_result minimal_item (enumerate 0 violations) = Inr es"
    using map_result_total [of "enumerate 0 violations" minimal_item] by blast
  with Inl have ev: "enrichViolations violations = Inr es"
    by (simp add: enrichViolations_def)
  from es have len: "length es = length violations"
    by (auto dest: map_result_length)
  have "truthy (ev_id (es ! i)) \<and> ev_id (es ! i) \<noteq> JStr [] \<and>
        ev_id (es ! i) \<in> {own_prop (violations ! i) ''id'',
                          own_prop (violations ! i) ''ruleId'',
                          JStr (''violation-'' @ to_decimal i)}"
    if i: "i < length violations" for i
  proof -
    from i rec have nn: "\<not> nullish (violations ! i)" by simp
    from es i have "minimal_item (enumerate 0 violations ! i) = Inr (es ! i)"
      by (intro map_result_nth) simp_all
    with i have "minimal_item (i, violations ! i) = Inr (es ! i)"
      by (simp add: nth_enumerate_eq)
    with minimal_item_id [OF nn, of i] show ?thesis
      by (auto simp: js_or_def)
  qed
  with ev len show ?thesis by blast
qed

theorem enrichViolations_total_witness:
  "\<not> nullish (JObj []) \<and>
   \<not> nullish (JObj [(''ruleId'', JStr ''image-alt''), (''tags'', JStr ''wcag2a'')]) \<and>
   (\<exists>es. enrichViolations
            [JObj [], JObj [(''ruleId'', JStr ''image-alt''), (''tags'', JStr ''wcag2a'')]]
          = Inr es \<and> length es = 2)"
proof -
  let ?vs = "[JObj [], JObj [(''ruleId'', JStr ''image-alt''), (''tags'', JStr ''wcag2a'')]]"
  have h: "\<forall>v \<in> set ?vs. \<not> nullish v" by simp
  from enrichViolations_total [OF h]
  obtain es where "enrichViolations ?vs = Inr es" and "length es = length ?vs" by blast
  then have "\<exists>es. enrichViolations ?vs = Inr es \<and> length es = 2" by simp
  then show ?thesis by simp
qed

text \<open>The bounds of the statement: an element that is \<open>null\<close> makes both the \<open>try\<close> and
  the \<open>catch\<close> block raise; one record with malformed tags, or with a tag that cannot be
  converted to a string, sends the whole batch to the minimal records.\<close>

lemma enrichViolations_null_element: "enrichViolations [JObj [], JNull] = Inl TypeError"
  by (simp add: enrichViolations_def enrich_item_def minimal_item_def wcag_tags_def
        js_or_def bind_result_def enumerate_eq_zip)

lemma enrichViolations_batch_fallback:
  "map_option (map ev_impact)
     (case enrichViolations [JObj [(''impact'', JStr ''critical'')],
                             JObj [(''tags'', JStr ''wcag2a'')]] of
        Inr es \<Rightarrow> Some es | Inl e \<Rightarrow> None)
   = Some [JUndefined, JUndefined]"
  by (simp add: enrichViolations_def enrich_item_def minimal_item_def wcag_tags_def
        js_or_def bind_result_def enumerate_eq_zip)

lemma enrichViolations_unconvertible_tag:
  "map_option (map ev_impact)
     (case enrichViolations [JObj [(''impact'', JStr ''critical''),
                                   (''tags'', JArr [JObj [(''toString'', JNum 1)]])]] of
        Inr es \<Rightarrow> Some es | Inl e \<Rightarrow> None)
   = Some [JUndefined]"
  by (simp add: enrichViolations_def enrich_item_def minimal_item_def wcag_tags_def
        wcag_test_def js_to_string_def js_or_def bind_result_def enumerate_eq_zip)

subsection \<open>Audit Report Builder and Result Validator\<close>

lemma truthy_not_nullish: "truthy v \<Longrightarrow> \<not> nullish v"
  by (cases v) simp_all

lemma build_issue_no_plan: "\<exists>y. build_issue None (i, v) = Inr y"
  by (simp add: build_issue_def bind_result_def get_prop_own truthy_not_nullish)

lemma build_issue_failure:
  "build_issue plan (i, v) = Inl e \<Longrightarrow> \<exists>f. plan = Some f \<and> f v = Inl e"
  by (auto simp: build_issue_def bind_result_def get_prop_own truthy_not_nullish
           split: option.splits sum.splits if_splits)

lemma map_result_failure:
  "map_result f xs = Inl e \<Longrightarrow> \<exists>x \<in> set xs. f x = Inl e"
  by (induction xs) (auto split: sum.splits)

lemma generateAuditReport_score:
  "generateAuditReport plan summ now fsr = Inr r \<Longrightarrow>
     accessibilityScore r = max 0 (min 100 (100 - int (length (fs_violations fsr)) * 8))"
  by (auto simp: generateAuditReport_def bind_result_def Let_def split: sum.splits)

lemma generateAuditReport_issues_length:
  "generateAuditReport plan summ now fsr = Inr r \<Longrightarrow>
     length (detailedIssues r) = length (fs_violations fsr)"
  by (auto simp: generateAuditReport_def bind_result_def Let_def
           split: sum.splits dest: map_result_length)

text \<open>
  C3. Every report the builder returns for a violation list of length \<open>N\<close> has the score
  \<open>clamp(0, 100, 100 - 8 * N)\<close>, which lies in \<open>[0, 100]\<close>; three violations give 76
  and none gives 100.
\<close>

theorem accessibilityScore_formula:
  assumes "generateAuditReport plan summ now fsr = Inr r"
  shows "accessibilityScore r = clamp 0 100 (100 - 8 * int (length (fs_violations fsr))) \<and>
         0 \<le> accessibilityScore r \<and> accessibilityScore r \<le> 100 \<and>
         (length (fs_violations fsr) = 3 \<longrightarrow> accessibilityScore r = 76) \<and>
         (length (fs_violations fsr) = 0 \<longrightarrow> accessibilityScore r = 100)"
  using generateAuditReport_score [OF assms] by (simp add: clamp_def)

lemma generateAuditReport_no_collaborators:
  "\<exists>r. generateAuditReport None None now fsr = Inr r"
proof -
  have "\<exists>y. build_issue None p = Inr y" for p
    using build_issue_no_plan [of "fst p" "snd p"] by simp
  then obtain issues where
    "map_result (build_issue None) (enumerate 0 (fs_violations fsr)) = Inr issues"
    using map_result_total [of "enumerate 0 (fs_violations fsr)" "build_issue None"] by blast
  then show ?thesis
    by (simp add: generateAuditReport_def bind_result_def Let_def)
qed

theorem accessibilityScore_formula_witness:
  "\<exists>r. generateAuditReport None None ''2025-01-01T00:00:00.000Z''
          \<lparr> fs_url = ''https://example.com'', fs_violations = critical_minor_critical,
            fs_timestamp = ''2025-01-01T00:00:00.000Z'', fs_requestId = ''scan-1'' \<rparr> = Inr r \<and>
        accessibilityScore r = 76"
proof -
  let ?fsr = "\<lparr> fs_url = ''https://example.com'', fs_violations = critical_minor_critical,
            fs_timestamp = ''2025-01-01T00:00:00.000Z'', fs_requestId = ''scan-1'' \<rparr>"
  obtain r where r: "generateAuditReport None None ''2025-01-01T00:00:00.000Z'' ?fsr = Inr r"
    using generateAuditReport_no_collaborators by blast
  have "length (fs_violations ?fsr) = 3" by (simp add: critical_minor_critical_def)
  with accessibilityScore_formula [OF r] have "accessibilityScore r = 76" by blast
  with r show ?thesis by blast
qed

text \<open>
  C2. For every report the builder returns, \<open>validateAuditResults\<close> gives the validation
  score \<open>clamp(0, 100, accessibilityScore - floor(issueCount / 2))\<close> with \<open>issueCount\<close>
  the number of detailed issues; the score lies in \<open>[0, 100]\<close> and does not exceed the
  accessibility score.
\<close>

theorem validationScore_formula:
  assumes "generateAuditReport plan summ now fsr = Inr r"
  shows "validationScore (validateAuditResults r) =
           clamp 0 100 (accessibilityScore r - int (length (detailedIssues r)) div 2) \<and>
         0 \<le> validationScore (validateAuditResults r) \<and>
         validationScore (validateAuditResults r) \<le> 100 \<and>
         validationScore (validateAuditResults r) \<le> accessibilityScore r"
  using generateAuditReport_score [OF assms]
  by (simp add: validateAuditResults_def Let_def clamp_def)

theorem validationScore_formula_witness:
  "\<exists>r. generateAuditReport None None ''2025-01-01T00:00:00.000Z''
          \<lparr> fs_url = ''https://example.com'', fs_violations = critical_minor_critical,
            fs_timestamp = ''2025-01-01T00:00:00.000Z'', fs_requestId = ''scan-1'' \<rparr> = Inr r \<and>
        validationScore (validateAuditResults r) = 75"
proof -
  let ?fsr = "\<lparr> fs_url = ''https://example.com'', fs_violations = critical_minor_critical,
            fs_timestamp = ''2025-01-01T00:00:00.000Z'', fs_requestId = ''scan-1'' \<rparr>"
  obtain r where r: "generateAuditReport None None ''2025-01-01T00:00:00.000Z'' ?fsr = Inr r"
    using generateAuditReport_no_collaborators by blast
  have "length (detailedIssues r) = 3"
    using generateAuditReport_issues_length [OF r] by (simp add: critical_minor_critical_def)
  moreover have "accessibilityScore r = 76"
    using generateAuditReport_score [OF r] by (simp add: critical_minor_critical_def)
  ultimately have "validationScore (validateAuditResults r) = 75"
    using validationScore_formula [OF r] by (simp add: clamp_def)
  with r show ?thesis by blast
qed

text \<open>The claim C7 as stated fails when the summarizer is there but its service is not:
  the builder calls it without a guard, so its failure is the failure of the builder,
  also for the empty violation list, and no summary is templated.\<close>

theorem summarizer_failure_counterexample:
  "generateAuditReport None failing_summarizer ''2025-01-01T00:00:00.000Z''
     \<lparr> fs_url = ''https://example.com'', fs_violations = [],
       fs_timestamp = ''2025-01-01T00:00:00.000Z'', fs_requestId = ''scan-1'' \<rparr>
   = Inl (CollaboratorError ''503 Service Unavailable'')"
  by (simp add: generateAuditReport_def failing_summarizer_def bind_result_def)

text \<open>
  C7, as amended. When the summarization collaborator is absent, that is, the imported
  binding is not a function, the builder either returns a report whose summary is
  \<open>Found N accessibility issue(s).\<close> with \<open>N\<close> the number of violations, or it passes on
  an exception that the remediation collaborator raised for one of the violations: the
  absent summarizer never makes it fail. For the empty violation list it returns a
  report with the summary \<open>Found 0 accessibility issue(s).\<close>.
\<close>

theorem summary_fallback:
  "(case generateAuditReport plan None now fsr of
      Inr r \<Rightarrow> summary r = JStr (''Found '' @ to_decimal (length (fs_violations fsr)) @
                                 '' accessibility issue(s).'')
    | Inl e \<Rightarrow> \<exists>f v. plan = Some f \<and> v \<in> set (fs_violations fsr) \<and> f v = Inl e) \<and>
   (fs_violations fsr = [] \<longrightarrow>
      (\<exists>r. generateAuditReport plan None now fsr = Inr r \<and>
           summary r = JStr ''Found 0 accessibility issue(s).''))"
proof
  show "case generateAuditReport plan None now fsr of
      Inr r \<Rightarrow> summary r = JStr (''Found '' @ to_decimal (length (fs_violations fsr)) @
                                 '' accessibility issue(s).'')
    | Inl e \<Rightarrow> \<exists>f v. plan = Some f \<and> v \<in> set (fs_violations fsr) \<and> f v = Inl e"
  proof (cases "map_result (build_issue plan) (enumerate 0 (fs_violations fsr))")
    case (Inl e)
    then obtain p where p: "p \<in> set (enumerate 0 (fs_violations fsr))"
      and "build_issue plan p = Inl e"
      by (auto dest: map_result_failure)
    then obtain f where "plan = Some f" "f (snd p) = Inl e"
      using build_issue_failure [of plan "fst p" "snd p" e] by auto
    moreover from p have "snd p \<in> set (fs_violations fsr)" by (rule enumerate_member)
    ultimately show ?thesis using Inl
      by (auto simp: generateAuditReport_def bind_result_def Let_def)
  next
    case (Inr issues)
    then show ?thesis
      by (simp add: generateAuditReport_def bind_result_def Let_def)
  qed
  show "fs_violations fsr = [] \<longrightarrow>
      (\<exists>r. generateAuditReport plan None now fsr = Inr r \<and>
           summary r = JStr ''Found 0 accessibility issue(s).'')"
    by (simp add: generateAuditReport_def bind_result_def Let_def to_decimal.simps
          digit_char_def)
qed

theorem summary_fallback_witness:
  "(\<exists>r. generateAuditReport None None ''2025-01-01T00:00:00.000Z''
          \<lparr> fs_url = ''https://example.com'', fs_violations = [],
            fs_timestamp = ''2025-01-01T00:00:00.000Z'', fs_requestId = ''scan-1'' \<rparr> = Inr r \<and>
        summary r = JStr ''Found 0 accessibility issue(s).'') \<and>
   (\<exists>r. generateAuditReport None None ''2025-01-01T00:00:00.000Z''
          \<lparr> fs_url = ''https://example.com'', fs_violations = critical_minor_critical,
            fs_timestamp = ''2025-01-01T00:00:00.000Z'', fs_requestId = ''scan-1'' \<rparr> = Inr r \<and>
        summary r = JStr ''Found 3 accessibility issue(s).'')"
proof
  show "\<exists>r. generateAuditReport None None ''2025-01-01T00:00:00.000Z''
          \<lparr> fs_url = ''https://example.com'', fs_violations = [],
            fs_timestamp = ''2025-01-01T00:00:00.000Z'', fs_requestId = ''scan-1'' \<rparr> = Inr r \<and>
        summary r = JStr ''Found 0 accessibility issue(s).''"
    using summary_fallback [where plan = None and now = "''2025-01-01T00:00:00.000Z''"
          and fsr = "\<lparr> fs_url = ''https://example.com'', fs_violations = [],
            fs_timestamp = ''2025-01-01T00:00:00.000Z'', fs_requestId = ''scan-1'' \<rparr>"]
    by simp
next
  let ?fsr = "\<lparr> fs_url = ''https://example.com'', fs_violations = critical_minor_critical,
            fs_timestamp = ''2025-01-01T00:00:00.000Z'', fs_requestId = ''scan-1'' \<rparr>"
  obtain r where r: "generateAuditReport None None ''2025-01-01T00:00:00.000Z'' ?fsr = Inr r"
    using generateAuditReport_no_collaborators by blast
  have "length (fs_violations ?fsr) = 3" by (simp add: critical_minor_critical_def)
  then have "to_decimal (length (fs_violations ?fsr)) = ''3''"
    by (simp add: to_decimal.simps digit_char_def)
  with r summary_fallback [where plan = None and now = "''2025-01-01T00:00:00.000Z''"
          and fsr = ?fsr]
  have "summary r = JStr ''Found 3 accessibility issue(s).''" by simp
  with r show "\<exists>r. generateAuditReport None None ''2025-01-01T00:00:00.000Z'' ?fsr = Inr r \<and>
        summary r = JStr ''Found 3 accessibility issue(s).''" by blast
qed

subsection \<open>Remediation Prioritizer\<close>

lemma weight_nonzero: "map_of weight k = Some n \<Longrightarrow> n \<noteq> 0"
  by (auto simp: weight_def split: if_splits)

lemma weight_of_plain: "plain_impact a \<Longrightarrow> weight_of a = Inr (Fin (spec_weight a))"
proof (cases "ev_impact a")
  case (JStr s)
  assume "plain_impact a"
  with JStr show ?thesis
    by (cases "s = []")
       (auto simp: plain_impact_def weight_of_def spec_weight_def js_or_def Let_def
          toLowerCase_def weight_def split: option.splits)
qed (auto simp: plain_impact_def weight_of_def spec_weight_def js_or_def Let_def
       toLowerCase_def weight_def object_prototype_keys_def split: if_splits)

lemma compare_weight_plain:
  "plain_impact a \<Longrightarrow> plain_impact b \<Longrightarrow>
     compare_weight a b = Inr (Fin (spec_weight b - spec_weight a))"
  by (simp add: compare_weight_def bind_result_def weight_of_plain js_sub_def)

lemma compare_order_plain:
  "plain_impact a \<Longrightarrow> plain_impact b \<Longrightarrow>
     compare_order compare_weight a b = Inr (spec_weight b - spec_weight a)"
  by (simp add: compare_order_def compare_weight_plain sort_compare_def)

text \<open>The run at the start of the array: along a descending run the weights grow
  strictly, along an ascending one they do not grow.\<close>

lemma extend_run_plain:
  assumes "plain_impact previous" and "\<forall>x \<in> set xs. plain_impact x"
  shows "\<exists>run rest. extend_run compare_weight descending previous xs = Inr (run, rest) \<and>
           run @ rest = xs \<and>
           successively (\<lambda>a b. if descending then spec_weight a < spec_weight b
                                else spec_weight a \<ge> spec_weight b) (previous # run)"
  using assms
proof (induction xs arbitrary: previous)
  case Nil
  then show ?case by simp
next
  case (Cons current rest)
  from Cons.prems have pc: "plain_impact current" and pr: "\<forall>x \<in> set rest. plain_impact x"
    by simp_all
  from Cons.IH [OF pc pr] obtain run rest' where
    ih: "extend_run compare_weight descending current rest = Inr (run, rest')"
        "run @ rest' = rest"
        "successively (\<lambda>a b. if descending then spec_weight a < spec_weight b
                               else spec_weight a \<ge> spec_weight b) (current # run)"
    by blast
  show ?case
    using Cons.prems(1) pc ih
    by (auto simp: compare_order_plain)
qed

lemma strictly_growing_filter:
  "sorted_wrt (\<lambda>a b. spec_weight a < spec_weight b) xs \<Longrightarrow>
     length (filter (\<lambda>v. spec_weight v = k) xs) \<le> 1"
proof (induction xs)
  case Nil
  then show ?case by simp
next
  case (Cons x xs)
  show ?case
  proof (cases "spec_weight x = k")
    case True
    with Cons.prems have "filter (\<lambda>v. spec_weight v = k) xs = []"
      by (auto simp: filter_empty_conv)
    with True show ?thesis by simp
  next
    case False
    with Cons show ?thesis by simp
  qed
qed

lemma rev_short: "length xs \<le> 1 \<Longrightarrow> rev xs = xs"
  by (cases xs) auto

lemma count_and_make_run_plain:
  assumes "\<forall>x \<in> set xs. plain_impact x"
  shows "\<exists>run rest. count_and_make_run compare_weight xs = Inr (run, rest) \<and>
           sorted_wrt (\<lambda>a b. spec_weight a \<ge> spec_weight b) run \<and>
           mset run + mset rest = mset xs \<and>
           (\<forall>k. filter (\<lambda>v. spec_weight v = k) run @ filter (\<lambda>v. spec_weight v = k) rest
                  = filter (\<lambda>v. spec_weight v = k) xs)"
proof (cases xs rule: remdups_adj.cases)
  case (3 low high tl)
  then have xs: "xs = low # high # tl" by simp
  with assms have pl: "plain_impact low" and ph: "plain_impact high"
    and pt: "\<forall>x \<in> set tl. plain_impact x" by simp_all
  let ?desc = "spec_weight low - spec_weight high < 0"
  from extend_run_plain [OF ph pt, of ?desc] obtain run rest where
    er: "extend_run compare_weight ?desc high tl = Inr (run, rest)"
    and app: "run @ rest = tl"
    and suc: "successively (\<lambda>a b. if ?desc then spec_weight a < spec_weight b
                               else spec_weight a \<ge> spec_weight b) (high # run)"
    by blast
  show ?thesis
  proof (cases ?desc)
    case True
    with suc have "successively (\<lambda>a b. spec_weight a < spec_weight b) (low # high # run)"
      by simp
    then have up: "sorted_wrt (\<lambda>a b. spec_weight a < spec_weight b) (low # high # run)"
      by (subst (asm) successively_conv_sorted_wrt) (auto simp: transp_def)
    then have "sorted_wrt (\<lambda>a b. spec_weight b < spec_weight a) (rev (low # high # run))"
      by (simp only: sorted_wrt_rev)
    then have srt: "sorted_wrt (\<lambda>a b. spec_weight a \<ge> spec_weight b) (rev (low # high # run))"
      by (rule sorted_wrt_mono_rel [rotated]) simp
    have st: "filter (\<lambda>v. spec_weight v = k) (rev (low # high # run))
                = filter (\<lambda>v. spec_weight v = k) (low # high # run)" for k
      using strictly_growing_filter [OF up, of k]
      by (simp only: rev_filter [symmetric] rev_short)
    have res: "count_and_make_run compare_weight xs = Inr (rev (low # high # run), rest)"
      using True er pl ph by (simp add: xs compare_order_plain)
    have ms: "mset (rev (low # high # run)) + mset rest = mset xs"
      using app by (auto simp: xs)
    have "filter (\<lambda>v. spec_weight v = k) (rev (low # high # run)) @
          filter (\<lambda>v. spec_weight v = k) rest = filter (\<lambda>v. spec_weight v = k) xs" for k
      unfolding st using app by (auto simp: xs)
    with res srt ms show ?thesis by blast
  next
    case False
    with suc have "successively (\<lambda>a b. spec_weight a \<ge> spec_weight b) (low # high # run)"
      by simp
    then have srt: "sorted_wrt (\<lambda>a b. spec_weight a \<ge> spec_weight b) (low # high # run)"
      by (subst (asm) successively_conv_sorted_wrt) (auto simp: transp_def)
    have res: "count_and_make_run compare_weight xs = Inr (low # high # run, rest)"
      using False er pl ph by (simp add: xs compare_order_plain)
    have "filter (\<lambda>v. spec_weight v = k) (low # high # run) @
          filter (\<lambda>v. spec_weight v = k) rest = filter (\<lambda>v. spec_weight v = k) xs" for k
      using app by (auto simp: xs)
    moreover have "mset (low # high # run) + mset rest = mset xs"
      using app by (auto simp: xs)
    ultimately show ?thesis using res srt by blast
  qed
next
  case 1
  then show ?thesis by simp
next
  case (2 x)
  then show ?thesis by simp
qed

text \<open>The binary search in a part sorted by descending weight returns the place after
  the elements that weigh at least as much as the pivot.\<close>

lemma binary_search_plain:
  assumes "plain_impact pivot" and "\<forall>x \<in> set placed. plain_impact x"
    and "sorted_wrt (\<lambda>a b. spec_weight a \<ge> spec_weight b) placed"
    and "left \<le> right" and "right \<le> length placed"
    and "\<forall>i < left. spec_weight (placed ! i) \<ge> spec_weight pivot"
    and "\<forall>i. right \<le> i \<and> i < length placed \<longrightarrow> spec_weight (placed ! i) < spec_weight pivot"
  shows "\<exists>p. binary_search compare_weight pivot placed left right = Inr p \<and>
           p \<le> length placed \<and>
           (\<forall>i < p. spec_weight (placed ! i) \<ge> spec_weight pivot) \<and>
           (\<forall>i. p \<le> i \<and> i < length placed \<longrightarrow> spec_weight (placed ! i) < spec_weight pivot)"
  using assms(4-7)
proof (induction "right - left" arbitrary: left right rule: less_induct)
  case less
  show ?case
  proof (cases "left < right")
    case False
    with less.prems have "left = right" by simp
    with less.prems show ?thesis
      by (subst binary_search.simps) auto
  next
    case True
    let ?mid = "left + (right - left) div 2"
    have mid: "left \<le> ?mid" "?mid < right" using True by auto
    with less.prems have midlen: "?mid < length placed" by simp
    then have pm: "plain_impact (placed ! ?mid)" using assms(2) by simp
    have ord: "compare_order compare_weight pivot (placed ! ?mid)
                 = Inr (spec_weight (placed ! ?mid) - spec_weight pivot)"
      using assms(1) pm by (rule compare_order_plain)
    show ?thesis
    proof (cases "spec_weight (placed ! ?mid) < spec_weight pivot")
      case lt: True
      have "\<forall>i. ?mid \<le> i \<and> i < length placed \<longrightarrow>
              spec_weight (placed ! i) < spec_weight pivot"
      proof (intro allI impI)
        fix i assume i: "?mid \<le> i \<and> i < length placed"
        have "spec_weight (placed ! ?mid) \<ge> spec_weight (placed ! i)"
        proof (cases "?mid = i")
          case True
          then show ?thesis by simp
        next
          case False
          with i have "?mid < i" by simp
          with assms(3) i show ?thesis by (auto dest: sorted_wrt_nth_less)
        qed
        with lt show "spec_weight (placed ! i) < spec_weight pivot" by simp
      qed
      moreover have "?mid - left < right - left" "left \<le> ?mid" "?mid \<le> length placed"
        using mid midlen by simp_all
      ultimately obtain p where "binary_search compare_weight pivot placed left ?mid = Inr p"
        "p \<le> length placed"
        "\<forall>i < p. spec_weight (placed ! i) \<ge> spec_weight pivot"
        "\<forall>i. p \<le> i \<and> i < length placed \<longrightarrow> spec_weight (placed ! i) < spec_weight pivot"
        using less.hyps [of ?mid left] less.prems(3) by blast
      with True lt ord show ?thesis
        by (subst binary_search.simps) auto
    next
      case ge: False
      have "\<forall>i < ?mid + 1. spec_weight (placed ! i) \<ge> spec_weight pivot"
      proof (intro allI impI)
        fix i assume i: "i < ?mid + 1"
        have "spec_weight (placed ! i) \<ge> spec_weight (placed ! ?mid)"
        proof (cases "i = ?mid")
          case True
          then show ?thesis by simp
        next
          case False
          with i have "i < ?mid" by simp
          with assms(3) midlen show ?thesis by (auto dest: sorted_wrt_nth_less)
        qed
        with ge show "spec_weight (placed ! i) \<ge> spec_weight pivot" by simp
      qed
      moreover have "right - (?mid + 1) < right - left" "?mid + 1 \<le> right"
        using mid by simp_all
      ultimately obtain p where "binary_search compare_weight pivot placed (?mid + 1) right = Inr p"
        "p \<le> length placed"
        "\<forall>i < p. spec_weight (placed ! i) \<ge> spec_weight pivot"
        "\<forall>i. p \<le> i \<and> i < length placed \<longrightarrow> spec_weight (placed ! i) < spec_weight pivot"
        using less.hyps [of right "?mid + 1"] less.prems(2,4) by blast
      with True ge ord show ?thesis
        by (subst binary_search.simps) auto
    qed
  qed
qed

lemma insert_at_place:
  assumes "sorted_wrt (\<lambda>a b. spec_weight a \<ge> spec_weight b) placed"
    and "p \<le> length placed"
    and "\<forall>i < p. spec_weight (placed ! i) \<ge> spec_weight pivot"
    and "\<forall>i. p \<le> i \<and> i < length placed \<longrightarrow> spec_weight (placed ! i) < spec_weight pivot"
  shows "sorted_wrt (\<lambda>a b. spec_weight a \<ge> spec_weight b)
           (take p placed @ pivot # drop p placed) \<and>
         (\<forall>k. filter (\<lambda>v. spec_weight v = k) (take p placed @ pivot # drop p placed)
                = filter (\<lambda>v. spec_weight v = k) (placed @ [pivot]))"
proof -
  have before: "spec_weight x \<ge> spec_weight pivot" if "x \<in> set (take p placed)" for x
    using that assms(2,3) by (auto simp: in_set_conv_nth)
  have after: "spec_weight x < spec_weight pivot" if "x \<in> set (drop p placed)" for x
    using that assms(2,4) by (auto simp: in_set_conv_nth)
  have "sorted_wrt (\<lambda>a b. spec_weight a \<ge> spec_weight b) (take p placed @ drop p placed)"
    using assms(1) by simp
  then have s: "sorted_wrt (\<lambda>a b. spec_weight a \<ge> spec_weight b)
                  (take p placed @ pivot # drop p placed)"
    using before after by (fastforce simp: sorted_wrt_append)
  have "filter (\<lambda>v. spec_weight v = k) (take p placed @ pivot # drop p placed)
          = filter (\<lambda>v. spec_weight v = k) (placed @ [pivot])" for k
  proof -
    have split: "filter (\<lambda>v. spec_weight v = k) placed =
             filter (\<lambda>v. spec_weight v = k) (take p placed) @
             filter (\<lambda>v. spec_weight v = k) (drop p placed)"
      by (metis append_take_drop_id filter_append)
    show ?thesis
    proof (cases "spec_weight pivot = k")
      case True
      then have "filter (\<lambda>v. spec_weight v = k) (drop p placed) = []"
        by (force simp: filter_empty_conv dest: after)
      with True split show ?thesis by simp
    next
      case False
      with split show ?thesis by simp
    qed
  qed
  with s show ?thesis by blast
qed

lemma binary_insertion_plain:
  assumes "\<forall>x \<in> set placed. plain_impact x" and "\<forall>x \<in> set rest. plain_impact x"
    and "sorted_wrt (\<lambda>a b. spec_weight a \<ge> spec_weight b) placed"
  shows "\<exists>ys. binary_insertion compare_weight placed rest = Inr ys \<and>
           sorted_wrt (\<lambda>a b. spec_weight a \<ge> spec_weight b) ys \<and>
           mset ys = mset placed + mset rest \<and>
           (\<forall>k. filter (\<lambda>v. spec_weight v = k) ys
                  = filter (\<lambda>v. spec_weight v = k) (placed @ rest))"
  using assms
proof (induction rest arbitrary: placed)
  case Nil
  then show ?case by simp
next
  case (Cons pivot rest)
  from Cons.prems have pp: "plain_impact pivot" and pr: "\<forall>x \<in> set rest. plain_impact x"
    by simp_all
  from binary_search_plain [OF pp Cons.prems(1) Cons.prems(3), of 0 "length placed"]
  obtain p where p: "binary_search compare_weight pivot placed 0 (length placed) = Inr p"
    "p \<le> length placed"
    "\<forall>i < p. spec_weight (placed ! i) \<ge> spec_weight pivot"
    "\<forall>i. p \<le> i \<and> i < length placed \<longrightarrow> spec_weight (placed ! i) < spec_weight pivot"
    by auto
  let ?next = "take p placed @ pivot # drop p placed"
  from insert_at_place [OF Cons.prems(3) p(2) p(3) p(4)]
  have srt: "sorted_wrt (\<lambda>a b. spec_weight a \<ge> spec_weight b) ?next"
    and st: "\<And>k. filter (\<lambda>v. spec_weight v = k) ?next
                  = filter (\<lambda>v. spec_weight v = k) (placed @ [pivot])"
    by blast+
  have ms: "mset ?next = mset placed + {#pivot#}"
    by (metis append_take_drop_id mset.simps(2) mset_append union_mset_add_mset_right
          add.right_neutral)
  have pn: "\<forall>x \<in> set ?next. plain_impact x"
    using Cons.prems(1) pp by (auto dest: in_set_takeD in_set_dropD)
  from Cons.IH [OF pn pr srt] obtain ys where
    ys: "binary_insertion compare_weight ?next rest = Inr ys"
    "sorted_wrt (\<lambda>a b. spec_weight a \<ge> spec_weight b) ys"
    "mset ys = mset ?next + mset rest"
    "\<forall>k. filter (\<lambda>v. spec_weight v = k) ys = filter (\<lambda>v. spec_weight v = k) (?next @ rest)"
    by blast
  have "filter (\<lambda>v. spec_weight v = k) ys
          = filter (\<lambda>v. spec_weight v = k) (placed @ pivot # rest)" for k
  proof -
    have "filter (\<lambda>v. spec_weight v = k) ys = filter (\<lambda>v. spec_weight v = k) (?next @ rest)"
      using ys(4) by blast
    also have "\<dots> = filter (\<lambda>v. spec_weight v = k) ?next @ filter (\<lambda>v. spec_weight v = k) rest"
      by (rule filter_append)
    also have "\<dots> = filter (\<lambda>v. spec_weight v = k) (placed @ [pivot]) @
                      filter (\<lambda>v. spec_weight v = k) rest"
      by (simp only: st)
    also have "\<dots> = filter (\<lambda>v. spec_weight v = k) (placed @ pivot # rest)"
      by simp
    finally show ?thesis .
  qed
  moreover have "mset ys = mset placed + mset (pivot # rest)"
    using ys(3) ms by simp
  moreover have "binary_insertion compare_weight placed (pivot # rest) = Inr ys"
    using p(1) ys(1) by simp
  ultimately show ?case using ys(2) by blast
qed

lemma array_sort_plain:
  assumes "\<forall>x \<in> set xs. plain_impact x"
  shows "\<exists>ys. array_sort compare_weight xs = Inr ys \<and>
           sorted_wrt (\<lambda>a b. spec_weight a \<ge> spec_weight b) ys \<and>
           mset ys = mset xs \<and>
           (\<forall>k. filter (\<lambda>v. spec_weight v = k) ys = filter (\<lambda>v. spec_weight v = k) xs)"
proof (cases "length xs < 2")
  case True
  then have "length xs \<le> 1" by simp
  then have "sorted_wrt (\<lambda>a b. spec_weight a \<ge> spec_weight b) xs"
    by (rule sorted_wrt01)
  with True show ?thesis by (simp add: array_sort_def)
next
  case False
  from count_and_make_run_plain [OF assms] obtain run rest where
    cr: "count_and_make_run compare_weight xs = Inr (run, rest)"
    and srt: "sorted_wrt (\<lambda>a b. spec_weight a \<ge> spec_weight b) run"
    and ms: "mset run + mset rest = mset xs"
    and st: "\<And>k. filter (\<lambda>v. spec_weight v = k) run @ filter (\<lambda>v. spec_weight v = k) rest
                  = filter (\<lambda>v. spec_weight v = k) xs"
    by blast
  from ms have "set run \<union> set rest = set xs"
    by (metis set_mset_mset set_mset_union)
  with assms have pl: "\<forall>x \<in> set run. plain_impact x" "\<forall>x \<in> set rest. plain_impact x"
    by auto
  from binary_insertion_plain [OF pl srt] obtain ys where
    ys: "binary_insertion compare_weight run rest = Inr ys"
    "sorted_wrt (\<lambda>a b. spec_weight a \<ge> spec_weight b) ys"
    "mset ys = mset run + mset rest"
    "\<forall>k. filter (\<lambda>v. spec_weight v = k) ys = filter (\<lambda>v. spec_weight v = k) (run @ rest)"
    by blast
  have "array_sort compare_weight xs = Inr ys"
    using False cr ys(1) by (simp add: array_sort_def)
  moreover have "\<forall>k. filter (\<lambda>v. spec_weight v = k) ys = filter (\<lambda>v. spec_weight v = k) xs"
    using ys(4) st by simp
  ultimately show ?thesis using ys(2,3) ms by auto
qed

text \<open>On plain impacts the prioritizer is the stable sort by descending weight: it does
  not raise, its result is a permutation of the input, the weights do not increase along
  it, and for each weight the items of that weight are in their input order.\<close>

lemma prioritizeRemediations_plain:
  assumes "\<forall>x \<in> set enriched. plain_impact x"
  shows "\<exists>ys. prioritizeRemediations enriched = Inr ys \<and>
           mset ys = mset enriched \<and>
           sorted_wrt (\<lambda>a b. spec_weight a \<ge> spec_weight b) ys \<and>
           (\<forall>k. filter (\<lambda>v. spec_weight v = k) ys = filter (\<lambda>v. spec_weight v = k) enriched)"
  using array_sort_plain [OF assms] by (auto simp: prioritizeRemediations_def)

text \<open>Hence on plain impacts the result is the stable sort of the library.\<close>

lemma prioritizeRemediations_sort_key:
  assumes "\<forall>x \<in> set enriched. plain_impact x"
  shows "prioritizeRemediations enriched = Inr (sort_key (\<lambda>v. - spec_weight v) enriched)"
proof -
  from prioritizeRemediations_plain [OF assms] obtain ys where
    ys: "prioritizeRemediations enriched = Inr ys" "mset ys = mset enriched"
    "sorted_wrt (\<lambda>a b. spec_weight a \<ge> spec_weight b) ys"
    "\<forall>k. filter (\<lambda>v. spec_weight v = k) ys = filter (\<lambda>v. spec_weight v = k) enriched"
    by blast
  have "sorted (map (\<lambda>v. - spec_weight v) ys)"
    using ys(3) by (simp add: sorted_wrt_map)
  moreover have "filter (\<lambda>x. - spec_weight k = - spec_weight x) ys
                 = filter (\<lambda>x. - spec_weight k = - spec_weight x) enriched" for k
  proof -
    have "(\<lambda>x. - spec_weight k = - spec_weight x) = (\<lambda>v. spec_weight v = spec_weight k)"
      by (rule ext) auto
    with ys(4) show ?thesis by simp
  qed
  ultimately have "sort_key (\<lambda>v. - spec_weight v) enriched = ys"
    using ys(2) by (intro properties_for_sort_key) auto
  with ys(1) show ?thesis by simp
qed

text \<open>A truthy impact that is not a string makes the comparator raise as soon as there
  is something to compare.\<close>

lemma weight_of_error: "weight_of a = Inl e \<Longrightarrow> e = TypeError"
  by (auto simp: weight_of_def Let_def split: jsval.splits option.splits)

lemma prioritizeRemediations_number_impact:
  "prioritizeRemediations (a\<lparr>ev_impact := JNum 5\<rparr> # b # rest) = Inl TypeError"
proof -
  have bad: "weight_of (a\<lparr>ev_impact := JNum 5\<rparr>) = Inl TypeError"
    by (simp add: weight_of_def js_or_def)
  have "compare_weight b (a\<lparr>ev_impact := JNum 5\<rparr>) = Inl TypeError"
    using bad by (cases "weight_of b")
      (auto simp: compare_weight_def bind_result_def dest: weight_of_error)
  then show ?thesis
    by (simp add: prioritizeRemediations_def array_sort_def compare_order_def)
qed

text \<open>With three or more items an inherited key leaves the order to the engine's
  algorithm. For the impacts minor, critical, \<open>constructor\<close>, critical (ids \<open>a\<close> to
  \<open>d\<close>) the run \<open>a, b\<close> is reversed, \<open>c\<close> stays after it, and \<open>d\<close> is inserted
  after \<open>b\<close>.\<close>

lemma prioritizeRemediations_inherited_key_four:
  "map_option (map ev_id)
     (case prioritizeRemediations
             (map (\<lambda>p. \<lparr> ev_id = JStr (fst p), ev_description = JStr [],
                         ev_impact = JStr (snd p), ev_nodes = JArr [], ev_wcag = JArr [],
                         ev_raw = JObj [], ev_aiExplanation = JUndefined \<rparr>)
                [(''a'', ''minor''), (''b'', ''critical''), (''c'', ''constructor''),
                 (''d'', ''critical'')]) of
        Inr ys \<Rightarrow> Some ys | Inl e \<Rightarrow> None)
   = Some [JStr ''b'', JStr ''d'', JStr ''a'', JStr ''c'']"
  by (simp add: prioritizeRemediations_def array_sort_def compare_order_def
        binary_search.simps compare_weight_def weight_of_def js_or_def bind_result_def
        js_sub_def sort_compare_def toLowerCase_def lower_char_def weight_def
        object_prototype_keys_def)

text \<open>
  C5. The claim fails on the code at the impact \<open>constructor\<close>: the table does not know
  it, so its weight should be 2 and a critical item (weight 5) should come before it. The
  lookup finds the inherited \<open>Object.prototype.constructor\<close> instead of falling back to
  2, the comparator returns \<open>NaN\<close>, and the sort leaves the two items as they were: the
  output weights are 2, 5.
\<close>

theorem prioritizeRemediations_inherited_key:
  "prioritizeRemediations constructor_then_critical = Inr constructor_then_critical \<and>
   map spec_weight constructor_then_critical = [2, 5] \<and>
   \<not> sorted_wrt (\<lambda>a b. spec_weight a \<ge> spec_weight b) constructor_then_critical"
  by (simp add: prioritizeRemediations_def constructor_then_critical_def array_sort_def
        compare_order_def compare_weight_def
        weight_of_def spec_weight_def js_or_def bind_result_def js_sub_def sort_compare_def
        toLowerCase_def lower_char_def weight_def object_prototype_keys_def)

subsection \<open>The prioritizer and the array it is given\<close>

text \<open>The array the store version returns holds what \<open>prioritizeRemediations\<close> computes.\<close>

lemma prioritizeRemediations_store_result:
  "prioritizeRemediations_store h a = (Inr c, h') \<Longrightarrow>
     c = length h \<and> prioritizeRemediations (h ! a) = Inr (h' ! c)"
  by (auto simp: prioritizeRemediations_store_def slice_def sort_in_place_def
        prioritizeRemediations_def nth_append split: sum.splits)

text \<open>
  C10. \<open>prioritizeRemediations\<close> does not mutate its input: whatever the call returns,
  every array that was allocated before the call, the argument among them, holds the same
  elements in the same order afterwards; a returned array is a fresh one, different from
  the argument.
\<close>

theorem prioritizeRemediations_store_frame:
  assumes "a < length h" and "prioritizeRemediations_store h a = (r, h')"
  shows "h' ! a = h ! a \<and> take (length h) h' = h \<and>
         (case r of Inr c \<Rightarrow> c \<noteq> a \<and> c = length h | Inl e \<Rightarrow> True)"
  using assms
  by (auto simp: prioritizeRemediations_store_def slice_def sort_in_place_def nth_append
        split: sum.splits)

theorem prioritizeRemediations_store_frame_witness:
  "(0::nat) < length sample_store \<and>
   (\<exists>h'. prioritizeRemediations_store sample_store 0 = (Inr 1, h') \<and>
         h' ! 0 = critical_minor_critical \<and>
         map ev_id (h' ! 1) = [JStr ''a'', JStr ''c'', JStr ''b''])"
proof -
  have l: "(0::nat) < length sample_store" by (simp add: sample_store_def)
  obtain r h' where run: "prioritizeRemediations_store sample_store 0 = (r, h')"
    by (cases "prioritizeRemediations_store sample_store 0")
  let ?sorted = "[critical_minor_critical ! 0, critical_minor_critical ! 2,
                  critical_minor_critical ! 1]"
  have "prioritizeRemediations_store sample_store 0 =
          (Inr 1, [critical_minor_critical, ?sorted])"
    by (simp add: prioritizeRemediations_store_def slice_def sort_in_place_def
          sample_store_def critical_minor_critical_def array_sort_def compare_order_def
          binary_search.simps compare_weight_def
          weight_of_def js_or_def bind_result_def js_sub_def sort_compare_def
          toLowerCase_def lower_char_def weight_def object_prototype_keys_def)
  with run have r: "r = Inr 1" and h': "h' = [critical_minor_critical, ?sorted]"
    by simp_all
  have ids: "map ev_id (h' ! 1) = [JStr ''a'', JStr ''c'', JStr ''b'']"
    unfolding h' by (simp add: critical_minor_critical_def)
  from prioritizeRemediations_store_frame [OF l run]
  have "h' ! 0 = critical_minor_critical" by (simp add: sample_store_def)
  with l run r ids show ?thesis by simp
qed

subsection \<open>Response assembly\<close>

text \<open>What the assembly does: the issue at index \<open>i\<close> of the report gets the
  explanation of the item at index \<open>i\<close> of the annotated, prioritized list.\<close>

lemma merge_explanations_nth:
  "i < length issues \<Longrightarrow>
     merge_explanations issues enhanced ! i =
       (issues ! i)\<lparr>di_aiExplanation := explanation_at enhanced i\<rparr>"
  by (simp add: merge_explanations_def nth_enumerate_eq)

lemma length_annotate: "length (annotate key explain prioritized) = length prioritized"
  by (simp add: annotate_def min_def)

lemma annotate_nth:
  "i < length prioritized \<Longrightarrow>
     annotate key explain prioritized ! i =
       (if key \<and> i < 5 then annotate_item explain (prioritized ! i) else prioritized ! i)"
  by (auto simp: annotate_def nth_append min_def)

text \<open>
  C1. The claim fails on the code: the report lists the issues in enrichment order, the
  explanations are generated along the prioritized order, and the assembly joins the two
  by index. For the violations \<open>a\<close> (minor) and \<open>b\<close> (critical) the response gives issue
  \<open>a\<close> the explanation generated for \<open>b\<close>, and issue \<open>b\<close> the one generated for \<open>a\<close>.
\<close>

theorem merge_by_index_misattributes:
  "map (\<lambda>i. (di_id i, di_aiExplanation i))
     (case audit_pipeline sample_env ''2025-01-01T00:00:00.000Z'' ''https://example.com''
             ''scan-1'' minor_then_critical of
        Inr response \<Rightarrow> detailedIssues (rs_auditReport response)
      | Inl e \<Rightarrow> [])
   = [(JStr ''a'', JStr ''about b''), (JStr ''b'', JStr ''about a'')]"
  by (simp add: audit_pipeline_def sample_env_def minor_then_critical_def explain_by_id_def
        enrichViolations_def enrich_item_def wcag_tags_def prioritizeRemediations_def
        array_sort_def compare_order_def compare_weight_def weight_of_def js_sub_def sort_compare_def toLowerCase_def
        lower_char_def weight_def object_prototype_keys_def generateAuditReport_def
        build_issue_def annotate_def annotate_item_def merge_explanations_def
        explanation_at_def js_or_def bind_result_def enumerate_eq_zip Let_def
        to_decimal.simps digit_char_def)

subsection \<open>Error responses\<close>

lemma errorMessage_cases:
  "errorMessage m \<in> set sanitized_messages \<or>
   errorMessage m = (case m of None \<Rightarrow> ''Failed to complete accessibility audit''
                     | Some t \<Rightarrow> if t = [] then ''Failed to complete accessibility audit'' else t)"
  by (simp add: errorMessage_def sanitized_messages_def Let_def)

text \<open>
  C8. The claim fails on the code: an error text that matches none of the signatures is
  sent as it is. The text of a failed browser launch, which carries a path of the server,
  is the message of the 500 response, and is none of the sanitized messages.
\<close>

theorem errorMessage_passes_raw_text:
  "errorMessage (Some ''Failed to launch the browser process! spawn /usr/bin/chromium ENOENT'')
     = ''Failed to launch the browser process! spawn /usr/bin/chromium ENOENT'' \<and>
   ''Failed to launch the browser process! spawn /usr/bin/chromium ENOENT''
     \<notin> set sanitized_messages"
  by (simp add: errorMessage_def sanitized_messages_def startsWith_def Let_def)

subsection \<open>Impact of an enriched violation\<close>

lemma map_result_map:
  "(\<And>x. x \<in> set xs \<Longrightarrow> f x = Inr (g x)) \<Longrightarrow> map_result f xs = Inr (map g xs)"
  by (induction xs) simp_all

lemma enrich_item_impact:
  assumes "\<not> nullish v" and "tags_ok v"
  shows "\<exists>e. enrich_item (i, v) = Inr e \<and>
           ev_impact e = js_or (own_prop v ''impact'')
                           (js_or (own_prop v ''severity'') (JStr ''moderate''))"
proof -
  have "\<exists>w. wcag_tags (own_prop v ''tags'') = Inr w"
  proof (cases "js_or (own_prop v ''tags'') (JArr [])")
    case (JArr ts)
    with assms(2) have "list_all stringifiable ts" by (simp add: tags_ok_def)
    then have "\<exists>b. wcag_test t = Inr b" if "t \<in> set ts" for t
      using that by (auto simp: list_all_iff intro: wcag_test_stringifiable)
    then obtain kept where "filter_result wcag_test ts = Inr kept"
      using filter_result_total [of ts wcag_test] by blast
    with JArr show ?thesis by (simp add: wcag_tags_def bind_result_def)
  qed (use assms(2) in \<open>simp_all add: tags_ok_def\<close>)
  then obtain w where "wcag_tags (own_prop v ''tags'') = Inr w" by blast
  with assms(1) show ?thesis
    by (simp add: enrich_item_def bind_result_def get_prop_own)
qed

text \<open>The claim C9 as stated fails: the impact \<open>blocker\<close> is no key of the severity
  table, and the enriched item carries \<open>blocker\<close>, not \<open>moderate\<close>.\<close>

theorem enrich_unrecognized_impact_counterexample:
  "enrichViolations [JObj [(''impact'', JStr ''blocker'')]] =
     Inr [\<lparr> ev_id = JStr ''violation-0'', ev_description = JStr [],
            ev_impact = JStr ''blocker'', ev_nodes = JArr [], ev_wcag = JArr [],
            ev_raw = JObj [(''impact'', JStr ''blocker'')],
            ev_aiExplanation = JUndefined \<rparr>] \<and>
   map_of weight (toLowerCase ''blocker'') = None \<and>
   JStr ''blocker'' \<noteq> JStr ''moderate''"
  by (simp add: enrichViolations_def enrich_item_def wcag_tags_def js_or_def bind_result_def
        enumerate_eq_zip to_decimal.simps digit_char_def weight_def toLowerCase_def
        lower_char_def)

text \<open>
  C9, as amended. For every sequence of raw violation records in which the tags of each
  record are absent or an array of values that convert to strings, the impact of every
  enriched item is the source impact when that is truthy, otherwise the source severity
  when that is truthy, otherwise the string \<open>moderate\<close>. The value is passed on as it
  is; it is not compared with any vocabulary.
\<close>

theorem enrich_impact_fallback_chain:
  assumes "\<forall>v \<in> set violations. \<not> nullish v \<and> tags_ok v"
  shows "\<exists>es. enrichViolations violations = Inr es \<and> length es = length violations \<and>
          (\<forall>i < length violations.
             ev_impact (es ! i) =
               (if truthy (own_prop (violations ! i) ''impact'')
                then own_prop (violations ! i) ''impact''
                else if truthy (own_prop (violations ! i) ''severity'')
                then own_prop (violations ! i) ''severity''
                else JStr ''moderate''))"
proof -
  have "\<exists>y. enrich_item p = Inr y" if "p \<in> set (enumerate 0 violations)" for p
  proof -
    from that assms have "\<not> nullish (snd p)" "tags_ok (snd p)"
      by (auto dest: enumerate_member)
    from enrich_item_impact [OF this, of "fst p"] show ?thesis by auto
  qed
  then obtain es where es: "map_result enrich_item (enumerate 0 violations) = Inr es"
    using map_result_total [of "enumerate 0 violations" enrich_item] by blast
  then have ev: "enrichViolations violations = Inr es"
    by (simp add: enrichViolations_def)
  from es have len: "length es = length violations"
    by (auto dest: map_result_length)
  have "ev_impact (es ! i) =
               (if truthy (own_prop (violations ! i) ''impact'')
                then own_prop (violations ! i) ''impact''
                else if truthy (own_prop (violations ! i) ''severity'')
                then own_prop (violations ! i) ''severity''
                else JStr ''moderate'')"
    if i: "i < length violations" for i
  proof -
    from i assms have ok: "\<not> nullish (violations ! i)" "tags_ok (violations ! i)"
      by simp_all
    from es i have "enrich_item (enumerate 0 violations ! i) = Inr (es ! i)"
      by (intro map_result_nth) simp_all
    with i have "enrich_item (i, violations ! i) = Inr (es ! i)"
      by (simp add: nth_enumerate_eq)
    with enrich_item_impact [OF ok, of i] show ?thesis
      by (auto simp: js_or_def)
  qed
  with ev len show ?thesis by blast
qed

theorem enrich_impact_fallback_chain_witness:
  "\<not> nullish (JObj [(''severity'', JStr ''serious''), (''tags'', JArr [JStr ''wcag2a''])]) \<and>
   tags_ok (JObj [(''severity'', JStr ''serious''), (''tags'', JArr [JStr ''wcag2a''])]) \<and>
   \<not> nullish (JObj []) \<and> tags_ok (JObj []) \<and>
   (\<exists>es. enrichViolations
            [JObj [(''severity'', JStr ''serious''), (''tags'', JArr [JStr ''wcag2a''])],
             JObj []] = Inr es \<and>
         map ev_impact es = [JStr ''serious'', JStr ''moderate''])"
proof -
  let ?vs = "[JObj [(''severity'', JStr ''serious''), (''tags'', JArr [JStr ''wcag2a''])],
              JObj []]"
  have h: "\<forall>v \<in> set ?vs. \<not> nullish v \<and> tags_ok v"
    by (simp add: tags_ok_def own_prop_def js_or_def)
  from enrich_impact_fallback_chain [OF h]
  obtain es where es: "enrichViolations ?vs = Inr es" and len: "length es = 2"
    and imp: "\<forall>i < 2. ev_impact (es ! i) =
               (if truthy (own_prop (?vs ! i) ''impact'')
                then own_prop (?vs ! i) ''impact''
                else if truthy (own_prop (?vs ! i) ''severity'')
                then own_prop (?vs ! i) ''severity''
                else JStr ''moderate'')"
    by auto
  from imp have "ev_impact (es ! 0) = JStr ''serious''" "ev_impact (es ! 1) = JStr ''moderate''"
    by (simp_all add: own_prop_def)
  with len have "map ev_impact es = [JStr ''serious'', JStr ''moderate'']"
    by (cases es; cases "tl es") (auto simp: length_Suc_conv)
  with es h show ?thesis by simp
qed

subsection \<open>Admission Controller\<close>

lemma timestamps_of_update [simp]:
  "timestamps_of (st(c \<mapsto> ts)) d = (if d = c then ts else timestamps_of st d)"
  by (simp add: timestamps_of_def)

text \<open>A check for one client leaves the timestamps of every other client alone.\<close>

lemma checkRateLimit_other_client:
  "d \<noteq> c \<Longrightarrow> timestamps_of (snd (checkRateLimit N W t d st)) c = timestamps_of st c"
  by (simp add: checkRateLimit_def Let_def)

lemma fold_min_least: "\<forall>x \<in> set xs. (a::int) \<le> x \<Longrightarrow> fold min xs a = a"
  by (induction xs arbitrary: a) (simp_all add: min_absorb1)

lemma oldest_sorted: "sorted ts \<Longrightarrow> ts \<noteq> [] \<Longrightarrow> oldest ts = hd ts"
  by (cases ts) (auto simp: oldest_def intro: fold_min_least)

lemma requests_admitted:
  assumes "timestamps_of st c = pre"
    and "length pre + length ts \<le> N"
    and "\<forall>u \<in> set (pre @ ts). \<forall>t \<in> set ts. t - u < W"
    and "requests N W c ts st = (rs, st')"
  shows "length rs = length ts \<and> list_all allowed rs \<and> timestamps_of st' c = pre @ ts"
  using assms
proof (induction ts arbitrary: st pre rs)
  case Nil
  then show ?case by simp
next
  case (Cons t ts)
  have keep: "filter (\<lambda>u. t - u < W) pre = pre"
    using Cons.prems(3) by (auto intro: filter_True)
  have less: "length pre < N" using Cons.prems(2) by simp
  let ?st = "st(c \<mapsto> pre @ [t])"
  have step: "checkRateLimit N W t c st = (\<lparr> allowed = True, retryAfterSeconds = 0 \<rparr>, ?st)"
    using keep less Cons.prems(1) by (simp add: checkRateLimit_def Let_def)
  from step Cons.prems(4) obtain rs' where
    rs: "rs = \<lparr> allowed = True, retryAfterSeconds = 0 \<rparr> # rs'"
    and rest: "requests N W c ts ?st = (rs', st')"
    by (auto split: prod.splits)
  have "length rs' = length ts \<and> list_all allowed rs' \<and>
        timestamps_of st' c = (pre @ [t]) @ ts"
  proof (rule Cons.IH [OF _ _ _ rest])
    show "timestamps_of ?st c = pre @ [t]" by simp
    show "length (pre @ [t]) + length ts \<le> N" using Cons.prems(2) by simp
    show "\<forall>u \<in> set ((pre @ [t]) @ ts). \<forall>t' \<in> set ts. t' - u < W"
      using Cons.prems(3) by auto
  qed
  with rs show ?case by simp
qed

text \<open>
  C6. For every client and every limit \<open>N \<ge> 1\<close> and window \<open>W\<close>: when a client without
  recorded requests makes \<open>N\<close> requests at the times \<open>ts\<close> (in order) and one more at a
  time \<open>t\<close> within \<open>W\<close> of the first, the \<open>N\<close> requests are admitted and the next one is
  rejected, with \<open>retryAfterSeconds\<close> the time until the oldest recorded timestamp, the
  first one, leaves the window, a positive number; and a request at a time \<open>t'\<close> at
  which the window since the first request has elapsed is admitted.
\<close>

theorem admission_window:
  assumes fresh: "timestamps_of st c = []"
    and ne: "ts \<noteq> []" and len: "length ts = N" and srt: "sorted ts"
    and after: "last ts \<le> t" and within: "t - hd ts < W"
    and run: "requests N W c ts st = (rs, st1)"
    and rej: "checkRateLimit N W t c st1 = (r, st2)"
    and elapsed: "W \<le> t' - hd ts"
    and adm: "checkRateLimit N W t' c st2 = (r', st3)"
  shows "length rs = N \<and> list_all allowed rs \<and>
         \<not> allowed r \<and> retryAfterSeconds r = hd ts + W - t \<and> 0 < retryAfterSeconds r \<and>
         allowed r'"
proof -
  have bounds: "hd ts \<le> u \<and> u \<le> last ts" if "u \<in> set ts" for u
  proof -
    from that obtain i where i: "i < length ts" "u = ts ! i"
      by (auto simp: in_set_conv_nth)
    with srt ne have "ts ! 0 \<le> ts ! i" "ts ! i \<le> ts ! (length ts - 1)"
      by (auto intro!: sorted_nth_mono)
    with i ne show ?thesis by (simp add: hd_conv_nth last_conv_nth)
  qed
  have win: "\<forall>u \<in> set ([] @ ts). \<forall>x \<in> set ts. x - u < W"
  proof (intro ballI)
    fix u x assume "u \<in> set ([] @ ts)" "x \<in> set ts"
    then have "hd ts \<le> u" "x \<le> last ts" using bounds by auto
    with after within show "x - u < W" by linarith
  qed
  from requests_admitted [OF fresh _ win run] len
  have rs: "length rs = N" "list_all allowed rs" and st1: "timestamps_of st1 c = ts"
    by simp_all
  have keep: "filter (\<lambda>u. t - u < W) ts = ts"
  proof (intro filter_True ballI)
    fix u assume "u \<in> set ts"
    then have "hd ts \<le> u" using bounds by simp
    with within show "t - u < W" by linarith
  qed
  from rej st1 keep len ne
  have r: "r = \<lparr> allowed = False, retryAfterSeconds = oldest ts + W - t \<rparr>"
    and st2: "st2 = st1(c \<mapsto> ts)"
    by (auto simp: checkRateLimit_def Let_def)
  from ne have "hd ts \<in> set ts" by simp
  moreover have "\<not> (t' - hd ts < W)" using elapsed by simp
  ultimately have "length (filter (\<lambda>u. t' - u < W) ts) < length ts"
    by (intro length_filter_less)
  with adm st2 len have r': "allowed r'"
    by (auto simp: checkRateLimit_def Let_def)
  from r oldest_sorted [OF srt ne] within rs r' show ?thesis by simp
qed

theorem admission_window_witness:
  "\<exists>rs st1 r st2 r' st3.
      requests 2 60 ''203.0.113.7'' [0, 10] Map.empty = (rs, st1) \<and>
      checkRateLimit 2 60 30 ''203.0.113.7'' st1 = (r, st2) \<and>
      checkRateLimit 2 60 60 ''203.0.113.7'' st2 = (r', st3) \<and>
      list_all allowed rs \<and> \<not> allowed r \<and> retryAfterSeconds r = 30 \<and> allowed r'"
proof -
  let ?c = "''203.0.113.7''"
  obtain rs st1 where run: "requests 2 60 ?c [0, 10] Map.empty = (rs, st1)"
    by (cases "requests 2 60 ?c [0, 10] Map.empty")
  obtain r st2 where rej: "checkRateLimit 2 60 30 ?c st1 = (r, st2)"
    by (cases "checkRateLimit 2 60 30 ?c st1")
  obtain r' st3 where adm: "checkRateLimit 2 60 60 ?c st2 = (r', st3)"
    by (cases "checkRateLimit 2 60 60 ?c st2")
  have "length rs = 2 \<and> list_all allowed rs \<and>
         \<not> allowed r \<and> retryAfterSeconds r = hd [0, 10] + 60 - 30 \<and> 0 < retryAfterSeconds r \<and>
         allowed r'"
    by (rule admission_window [OF _ _ _ _ _ _ run rej _ adm])
       (simp_all add: timestamps_of_def)
  with run rej adm show ?thesis by auto
qed

end
